theory Spec2Isabelle
  imports Complex_Main
begin

section \<open>Numbers and values\<close>

text \<open>
  A JavaScript number is an IEEE 754 binary64 value. \<open>Num x\<close> is the finite number
  \<open>x\<close>; the two infinities and \<open>NaN\<close> are constructors of their own. The two zeros
  are one value \<open>Num 0\<close>: the program adds, multiplies and compares, and none of
  these tells them apart. The operations round their results to doubles; what is
  proved of \<open>Num x\<close> for every real \<open>x\<close> holds of the doubles among them.
\<close>

datatype jsnum = Num real | Infinity | MinusInfinity | NaN

text \<open>
  Rounding to the nearest binary64 number, ties to the even significand. The numbers
  of magnitude in \<open>[2^k, 2^(k+1))\<close> are spaced \<open>2^(k-52)\<close> apart, and \<open>2^(-1074)\<close> apart
  below \<open>2^(-1022)\<close>; a result of magnitude \<open>2^1024\<close> or more is an infinity.
\<close>

definition ulp_exp :: "real \<Rightarrow> int" where
  "ulp_exp x = max \<lfloor>log 2 \<bar>x\<bar>\<rfloor> (- 1022) - 52"

definition round_even :: "real \<Rightarrow> int" where
  "round_even q =
    (if q - of_int \<lfloor>q\<rfloor> < 1 / 2 then \<lfloor>q\<rfloor>
     else if 1 / 2 < q - of_int \<lfloor>q\<rfloor> then \<lfloor>q\<rfloor> + 1
     else if even \<lfloor>q\<rfloor> then \<lfloor>q\<rfloor> else \<lfloor>q\<rfloor> + 1)"

definition fl :: "real \<Rightarrow> jsnum" where
  "fl x =
    (if x = 0 then Num 0
     else
       (let r = of_int (round_even (x / 2 powi ulp_exp x)) * 2 powi ulp_exp x
        in if 2 ^ 1024 \<le> r then Infinity
           else if r \<le> - (2 ^ 1024) then MinusInfinity
           else Num r))"

text \<open>The operators \<open>+\<close>, \<open>*\<close>, \<open><\<close> and \<open><=\<close> on numbers.\<close>

fun js_add :: "jsnum \<Rightarrow> jsnum \<Rightarrow> jsnum" where
  "js_add (Num a) (Num b) = fl (a + b)"
| "js_add NaN _ = NaN"
| "js_add _ NaN = NaN"
| "js_add Infinity MinusInfinity = NaN"
| "js_add MinusInfinity Infinity = NaN"
| "js_add Infinity _ = Infinity"
| "js_add _ Infinity = Infinity"
| "js_add MinusInfinity _ = MinusInfinity"
| "js_add _ MinusInfinity = MinusInfinity"

fun num_sign :: "jsnum \<Rightarrow> int" where
  "num_sign (Num a) = (if a = 0 then 0 else if 0 < a then 1 else - 1)"
| "num_sign Infinity = 1"
| "num_sign MinusInfinity = - 1"
| "num_sign NaN = 0"

fun js_mul :: "jsnum \<Rightarrow> jsnum \<Rightarrow> jsnum" where
  "js_mul (Num a) (Num b) = fl (a * b)"
| "js_mul NaN _ = NaN"
| "js_mul _ NaN = NaN"
| "js_mul a b =
    (if num_sign a * num_sign b = 0 then NaN
     else if 0 < num_sign a * num_sign b then Infinity else MinusInfinity)"

fun num_lt :: "jsnum \<Rightarrow> jsnum \<Rightarrow> bool" where
  "num_lt (Num a) (Num b) = (a < b)"
| "num_lt (Num a) Infinity = True"
| "num_lt MinusInfinity (Num b) = True"
| "num_lt MinusInfinity Infinity = True"
| "num_lt _ _ = False"

fun num_le :: "jsnum \<Rightarrow> jsnum \<Rightarrow> bool" where
  "num_le (Num a) (Num b) = (a \<le> b)"
| "num_le (Num a) Infinity = True"
| "num_le MinusInfinity (Num b) = True"
| "num_le MinusInfinity Infinity = True"
| "num_le Infinity Infinity = True"
| "num_le MinusInfinity MinusInfinity = True"
| "num_le _ _ = False"

text \<open>
  The tables \<open>costs\<close> and \<open>previous\<close> are plain objects. Reading a key that is not an
  own property gives the value inherited from \<open>Object.prototype\<close> when the key names
  one of its properties, and \<open>undefined\<close> otherwise.
\<close>

definition is_inherited :: "string \<Rightarrow> bool" where
  "is_inherited k =
    (k \<in> set [''constructor'', ''hasOwnProperty'', ''isPrototypeOf'',
              ''propertyIsEnumerable'', ''toLocaleString'', ''toString'', ''valueOf'',
              ''__proto__'', ''__defineGetter__'', ''__defineSetter__'',
              ''__lookupGetter__'', ''__lookupSetter__''])"

text \<open>
  What a read of \<open>costs\<close> can give: \<open>undefined\<close>, a number, or the inherited value
  (a function, or \<open>Object.prototype\<close> itself) of the named property.
\<close>

datatype jsval = Undefined | Number jsnum | Inherited string

text \<open>
  \<open>ToNumber\<close>, as \<open>+\<close> and \<open><\<close> apply it next to a number: \<open>undefined\<close> becomes \<open>NaN\<close>;
  an inherited value becomes a string that is no numeral, which compares as \<open>NaN\<close>.
\<close>

fun to_number :: "jsval \<Rightarrow> jsnum" where
  "to_number Undefined = NaN"
| "to_number (Number v) = v"
| "to_number (Inherited k) = NaN"

definition js_lt :: "jsval \<Rightarrow> jsval \<Rightarrow> bool" where
  "js_lt a b = num_lt (to_number a) (to_number b)"

section \<open>Data model\<close>

text \<open>
  A node \<open>{ id, x, y }\<close> and an edge
  \<open>{ start, end, distance, terrain, materialCost, laborCost }\<close>. The field \<open>id\<close> is
  \<open>node_id\<close> and the field \<open>end\<close> is \<open>end_node\<close> here, since \<open>id\<close> and \<open>end\<close> are taken.
  Identifiers are strings; the numeric fields are numbers.
\<close>

record node =
  node_id :: string
  node_x :: jsnum
  node_y :: jsnum

record edge =
  start :: string
  end_node :: string
  distance :: jsnum
  terrain :: jsnum
  materialCost :: jsnum
  laborCost :: jsnum

text \<open>The entry \<open>{ node, cost, edge }\<close> pushed on an adjacency list.\<close>

record neighbor =
  nb_node :: string
  nb_cost :: jsnum
  nb_edge :: edge

text \<open>The entry \<open>{ from, edge }\<close> of the table \<open>previous\<close>.\<close>

record prev =
  prev_from :: string
  prev_edge :: edge

text \<open>
  The result \<open>{ path, cost }\<close>. An element of \<open>path\<close> is an edge or \<open>undefined\<close>
  (\<open>None\<close>); \<open>cost\<close> is what \<open>costs[destination]\<close> reads.
\<close>

record route =
  path :: "edge option list"
  cost :: jsval

text \<open>The working set of one query: the own properties of \<open>costs\<close> and \<open>previous\<close>, and
  the set \<open>unvisited\<close>.\<close>

record search_state =
  costs :: "string \<rightharpoonup> jsnum"
  previous :: "string \<rightharpoonup> prev"
  unvisited :: "string list"

type_synonym graph = "string \<rightharpoonup> neighbor list"

text \<open>The only exception the search can raise: a call of, or a property read on, a
  value that does not have the property.\<close>

datatype error = TypeError

section \<open>The example graph\<close>

definition mk_node :: "string \<Rightarrow> real \<Rightarrow> real \<Rightarrow> node" where
  "mk_node i x y = \<lparr>node_id = i, node_x = Num x, node_y = Num y\<rparr>"

definition nodes :: "node list" where
  "nodes =
    [mk_node ''A'' 100 100,
     mk_node ''B'' 300 80,
     mk_node ''C'' 200 200,
     mk_node ''D'' 400 180,
     mk_node ''E'' 350 300,
     mk_node ''F'' 500 280]"

definition mk_edge :: "string \<Rightarrow> string \<Rightarrow> real \<Rightarrow> real \<Rightarrow> real \<Rightarrow> real \<Rightarrow> edge" where
  "mk_edge s e d t m l =
    \<lparr>start = s, end_node = e, distance = Num d, terrain = Num t,
     materialCost = Num m, laborCost = Num l\<rparr>"

definition edges :: "edge list" where
  "edges =
    [mk_edge ''A'' ''B'' 5 1 70 40,
     mk_edge ''A'' ''C'' 7 2 65 35,
     mk_edge ''B'' ''D'' 6 1 80 45,
     mk_edge ''C'' ''D'' 3 3 90 50,
     mk_edge ''C'' ''E'' 4 2 55 25,
     mk_edge ''D'' ''F'' 8 1 60 30,
     mk_edge ''E'' ''F'' 5 2 75 40]"

section \<open>Cost model\<close>

text \<open>\<open>edge.distance * (edge.materialCost + edge.laborCost)\<close>: the sum is rounded, then the
  product.\<close>

definition calculateEdgeCost :: "edge \<Rightarrow> jsnum" where
  "calculateEdgeCost e = js_mul (distance e) (js_add (materialCost e) (laborCost e))"

section \<open>The search\<close>

subsection \<open>Adjacency construction\<close>

text \<open>
  \<open>nodes.forEach(n => graph[n.id] = [])\<close>. The program reads \<open>graph\<close> in two places:
  \<open>graph[k].push(...)\<close> for the ends of an edge, and \<open>graph[current]\<close> for a node. A key
  that is no own property reads as \<open>undefined\<close> or as an inherited value; neither has
  a \<open>push\<close>, and the call raises in both cases. The assignment \<open>graph['__proto__'] = []\<close>
  makes the new array the prototype of \<open>graph\<close>, and \<open>graph['__proto__']\<close> reads it
  back, as it would an entry. So a partial map from keys to lists gives every read
  of \<open>graph\<close> the outcome it has in the program.
\<close>

definition init_graph :: "node list \<Rightarrow> graph" where
  "init_graph ns = fold (\<lambda>n g. g(node_id n \<mapsto> [])) ns Map.empty"

text \<open>The test of the \<open>if\<close> in \<open>edges.forEach\<close>.\<close>

definition admissible :: "(edge \<Rightarrow> bool) \<Rightarrow> jsnum \<Rightarrow> edge \<Rightarrow> bool" where
  "admissible terrainFilter maxCost e =
    (terrainFilter e \<and> num_le (calculateEdgeCost e) maxCost)"

text \<open>\<open>graph[k].push(nb)\<close>\<close>

definition push_neighbor :: "graph \<Rightarrow> string \<Rightarrow> neighbor \<Rightarrow> error + graph" where
  "push_neighbor g k nb =
    (case g k of None \<Rightarrow> Inl TypeError | Some l \<Rightarrow> Inr (g(k \<mapsto> l @ [nb])))"

definition add_edge :: "(edge \<Rightarrow> bool) \<Rightarrow> jsnum \<Rightarrow> graph \<Rightarrow> edge \<Rightarrow> error + graph" where
  "add_edge terrainFilter maxCost g e =
    (if admissible terrainFilter maxCost e then
       (case push_neighbor g (start e)
               \<lparr>nb_node = end_node e, nb_cost = calculateEdgeCost e, nb_edge = e\<rparr> of
          Inl err \<Rightarrow> Inl err
        | Inr g' \<Rightarrow>
            push_neighbor g' (end_node e)
              \<lparr>nb_node = start e, nb_cost = calculateEdgeCost e, nb_edge = e\<rparr>)
     else Inr g)"

fun add_edges :: "(edge \<Rightarrow> bool) \<Rightarrow> jsnum \<Rightarrow> graph \<Rightarrow> edge list \<Rightarrow> error + graph" where
  "add_edges terrainFilter maxCost g [] = Inr g"
| "add_edges terrainFilter maxCost g (e # es) =
    (case add_edge terrainFilter maxCost g e of
       Inl err \<Rightarrow> Inl err
     | Inr g' \<Rightarrow> add_edges terrainFilter maxCost g' es)"

definition build_graph ::
  "node list \<Rightarrow> edge list \<Rightarrow> (edge \<Rightarrow> bool) \<Rightarrow> jsnum \<Rightarrow> error + graph" where
  "build_graph ns es terrainFilter maxCost =
    add_edges terrainFilter maxCost (init_graph ns) es"

subsection \<open>Working set\<close>

text \<open>
  A \<open>Set\<close> iterates in insertion order and holds each element once: a list without
  repetitions, in the order of first insertion.
\<close>

definition set_add :: "string list \<Rightarrow> string \<Rightarrow> string list" where
  "set_add s k = (if k \<in> set s then s else s @ [k])"

definition new_Set :: "string list \<Rightarrow> string list" where
  "new_Set ks = foldl set_add [] ks"

text \<open>
  \<open>costs[k]\<close> and \<open>costs[k] = v\<close> for a number \<open>v\<close>. The key \<open>__proto__\<close> is an accessor
  of \<open>Object.prototype\<close>: assigning a number to it does nothing.
\<close>

definition get_cost :: "(string \<rightharpoonup> jsnum) \<Rightarrow> string \<Rightarrow> jsval" where
  "get_cost cs k =
    (case cs k of
       Some v \<Rightarrow> Number v
     | None \<Rightarrow> if is_inherited k then Inherited k else Undefined)"

definition set_cost :: "(string \<rightharpoonup> jsnum) \<Rightarrow> string \<Rightarrow> jsnum \<Rightarrow> (string \<rightharpoonup> jsnum)" where
  "set_cost cs k v = (if k = ''__proto__'' then cs else cs(k \<mapsto> v))"

text \<open>\<open>nodes.forEach(n => costs[n.id] = Infinity); costs[source] = 0\<close>\<close>

definition init_costs :: "node list \<Rightarrow> string \<Rightarrow> (string \<rightharpoonup> jsnum)" where
  "init_costs ns source =
    set_cost (fold (\<lambda>n c. set_cost c (node_id n) Infinity) ns Map.empty) source (Num 0)"

definition init_state :: "node list \<Rightarrow> string \<Rightarrow> search_state" where
  "init_state ns source =
    \<lparr>costs = init_costs ns source, previous = Map.empty,
     unvisited = new_Set (map node_id ns)\<rparr>"

subsection \<open>Selection and relaxation\<close>

text \<open>The body of \<open>unvisited.forEach\<close>, on the pair \<open>(current, min)\<close>; \<open>null\<close> is \<open>None\<close>.\<close>

definition select_step ::
  "(string \<rightharpoonup> jsnum) \<Rightarrow> string \<Rightarrow> string option \<times> jsval \<Rightarrow> string option \<times> jsval" where
  "select_step cs n cm =
    (if js_lt (get_cost cs n) (snd cm) then (Some n, get_cost cs n) else cm)"

definition select_min :: "(string \<rightharpoonup> jsnum) \<Rightarrow> string list \<Rightarrow> string option \<times> jsval" where
  "select_min cs unv = fold (select_step cs) unv (None, Number Infinity)"

text \<open>
  The body of \<open>for (const neighbor of graph[current])\<close>, on \<open>(costs, previous)\<close>. The
  operand \<open>costs[current]\<close> is a number when \<open>current\<close> was selected (lemma
  \<open>select_min_Some\<close>). The assignment to \<open>previous\<close> is never made at the key
  \<open>__proto__\<close>, whose cost never is a number (lemma \<open>relax_step_proto\<close>).
\<close>

definition relax_step ::
  "string list \<Rightarrow> string \<Rightarrow> neighbor
    \<Rightarrow> (string \<rightharpoonup> jsnum) \<times> (string \<rightharpoonup> prev) \<Rightarrow> (string \<rightharpoonup> jsnum) \<times> (string \<rightharpoonup> prev)" where
  "relax_step unv current nb cp =
    (if nb_node nb \<notin> set unv then cp
     else
       (let newCost = js_add (to_number (get_cost (fst cp) current)) (nb_cost nb)
        in if num_lt newCost (to_number (get_cost (fst cp) (nb_node nb)))
           then (set_cost (fst cp) (nb_node nb) newCost,
                 (snd cp)(nb_node nb \<mapsto> \<lparr>prev_from = current, prev_edge = nb_edge nb\<rparr>))
           else cp))"

definition relax ::
  "string list \<Rightarrow> string \<Rightarrow> neighbor list
    \<Rightarrow> (string \<rightharpoonup> jsnum) \<times> (string \<rightharpoonup> prev) \<Rightarrow> (string \<rightharpoonup> jsnum) \<times> (string \<rightharpoonup> prev)" where
  "relax unv current nbs cp = fold (relax_step unv current) nbs cp"

subsection \<open>The main loop\<close>

text \<open>
  The part of the loop body after the \<open>break\<close>: \<open>unvisited.delete(current)\<close>, then
  the relaxation of the neighbours of \<open>current\<close>.
\<close>

definition visit :: "search_state \<Rightarrow> string \<Rightarrow> neighbor list \<Rightarrow> search_state" where
  "visit s current nbs =
    (let unv = removeAll current (unvisited s);
         cp = relax unv current nbs (costs s, previous s)
     in \<lparr>costs = fst cp, previous = snd cp, unvisited = unv\<rparr>)"

text \<open>
  One call is one test of \<open>while (unvisited.size > 0)\<close>. The loop stops when the set is
  empty, when no unvisited node has a cost below \<open>Infinity\<close>, or when the selected
  node is the destination.
\<close>

function main_loop :: "graph \<Rightarrow> string \<Rightarrow> search_state \<Rightarrow> error + search_state" where
  "main_loop g destination s =
    (if unvisited s = [] then Inr s
     else
       (case fst (select_min (costs s) (unvisited s)) of
          None \<Rightarrow> Inr s
        | Some current \<Rightarrow>
            if current = destination then Inr s
            else
              (case g current of
                 None \<Rightarrow> Inl TypeError
               | Some nbs \<Rightarrow> main_loop g destination (visit s current nbs))))"
  by pat_completeness auto
termination
proof (relation "measure (\<lambda>(g, d, s). length (unvisited s))")
  show "wf (measure (\<lambda>(g, d, s). length (unvisited s)))"
    by simp
next
  fix g :: graph and destination :: string and s :: search_state
    and current :: string and nbs :: "neighbor list"
  assume sel: "fst (select_min (costs s) (unvisited s)) = Some current"
  have "fst (fold (select_step cs) unv cm) = Some k \<Longrightarrow> fst cm = Some k \<or> k \<in> set unv"
    for cs unv cm k
    by (induction unv arbitrary: cm) (fastforce simp: select_step_def split: if_splits)+
  from this [of "costs s" "unvisited s" "(None, Number Infinity)" current] sel
  have mem: "current \<in> set (unvisited s)"
    by (simp add: select_min_def)
  have "k \<in> set xs \<Longrightarrow> length (removeAll k xs) < length xs" for k :: string and xs
    by (induction xs) (auto simp: less_Suc_eq_le)
  from this [OF mem]
  show "((g, destination, visit s current nbs), (g, destination, s))
          \<in> measure (\<lambda>(g, d, s). length (unvisited s))"
    by (simp add: visit_def Let_def)
qed

declare main_loop.simps [simp del]

subsection \<open>Path reconstruction\<close>

text \<open>
  \<open>while (previous[current]) { path.unshift(previous[current].edge);
  current = previous[current].from; }\<close>. The variable \<open>current\<close> holds a string or
  \<open>undefined\<close> (\<open>None\<close>), and \<open>undefined\<close> reads the key \<open>undefined\<close>. An own entry is an
  object, which is truthy; so is an inherited value, whose \<open>edge\<close> and \<open>from\<close> are
  \<open>undefined\<close>. Nothing in the text of the loop bounds it, so it is a partial
  function: \<open>None\<close> is a walk that never ends.
\<close>

definition key_of :: "string option \<Rightarrow> string" where
  "key_of current = (case current of None \<Rightarrow> ''undefined'' | Some k \<Rightarrow> k)"

partial_function (option) reconstruct ::
  "(string \<rightharpoonup> prev) \<Rightarrow> string option \<Rightarrow> edge option list \<Rightarrow> edge option list option" where
  "reconstruct prv current pth =
    (case prv (key_of current) of
       Some p \<Rightarrow> reconstruct prv (Some (prev_from p)) (Some (prev_edge p) # pth)
     | None \<Rightarrow>
         if is_inherited (key_of current) then reconstruct prv None (None # pth)
         else Some pth)"

subsection \<open>The query\<close>

definition dijkstra ::
  "node list \<Rightarrow> edge list \<Rightarrow> string \<Rightarrow> string \<Rightarrow> (edge \<Rightarrow> bool) \<Rightarrow> jsnum
    \<Rightarrow> (error + route) option" where
  "dijkstra ns es source destination terrainFilter maxCost =
    (case build_graph ns es terrainFilter maxCost of
       Inl err \<Rightarrow> Some (Inl err)
     | Inr g \<Rightarrow>
         (case main_loop g destination (init_state ns source) of
            Inl err \<Rightarrow> Some (Inl err)
          | Inr s \<Rightarrow>
              (case reconstruct (previous s) (Some destination) [] of
                 None \<Rightarrow> None
               | Some pth \<Rightarrow>
                   Some (Inr \<lparr>path = pth, cost = get_cost (costs s) destination\<rparr>))))"

subsection \<open>The caller's terrain filter\<close>

text \<open>\<open>edge => !terrainFilterEnabled || edge.terrain <= maxTerrain\<close>\<close>

definition terrainFilter :: "bool \<Rightarrow> jsnum \<Rightarrow> edge \<Rightarrow> bool" where
  "terrainFilter terrainFilterEnabled maxTerrain e =
    (\<not> terrainFilterEnabled \<or> num_le (terrain e) maxTerrain)"

section \<open>Vocabulary of the properties\<close>

text \<open>The identifiers of a node list, and the invariant of the data model: every edge
  refers to nodes that exist.\<close>

definition node_ids :: "node list \<Rightarrow> string set" where
  "node_ids ns = node_id ` set ns"

definition well_formed :: "node list \<Rightarrow> edge list \<Rightarrow> bool" where
  "well_formed ns es = (\<forall>e \<in> set es. start e \<in> node_ids ns \<and> end_node e \<in> node_ids ns)"

text \<open>
  The sum of the costs of the edges of a path, as a program computes it: from 0, one
  rounded addition for each edge, in the order of the path.
\<close>

definition sum_costs :: "edge list \<Rightarrow> jsnum" where
  "sum_costs es = foldl (\<lambda>acc e. js_add acc (calculateEdgeCost e)) (Num 0) es"

text \<open>
  What an adjacency entry \<open>nb\<close> filed under the key \<open>k\<close> satisfies in a graph built
  from the edges \<open>es\<close>: its edge is an admissible edge of \<open>es\<close>, its cost is that
  edge's cost, and \<open>k\<close> and \<open>nb_node nb\<close> are the two ends of the edge.
\<close>

definition entry_ok ::
  "(edge \<Rightarrow> bool) \<Rightarrow> jsnum \<Rightarrow> edge list \<Rightarrow> string \<Rightarrow> neighbor \<Rightarrow> bool" where
  "entry_ok tf mc es k nb =
    (nb_edge nb \<in> set es \<and> admissible tf mc (nb_edge nb) \<and>
     nb_cost nb = calculateEdgeCost (nb_edge nb) \<and>
     ((k = start (nb_edge nb) \<and> nb_node nb = end_node (nb_edge nb)) \<or>
      (k = end_node (nb_edge nb) \<and> nb_node nb = start (nb_edge nb))))"

definition graph_ok :: "(string \<Rightarrow> neighbor \<Rightarrow> bool) \<Rightarrow> graph \<Rightarrow> bool" where
  "graph_ok P g = (\<forall>k nbs nb. g k = Some nbs \<longrightarrow> nb \<in> set nbs \<longrightarrow> P k nb)"

text \<open>
  The invariant of the main loop, for a graph \<open>g\<close> and the initial cost table \<open>c0\<close>:
  unvisited nodes are keys of the graph; \<open>costs\<close> has no own property \<open>__proto__\<close>; a
  node with no predecessor still has its initial cost; a predecessor link
  \<open>previous[v] = { from, edge }\<close> comes from an adjacency entry of \<open>from\<close> leading to
  \<open>v\<close>, the cost of \<open>from\<close> is a number below \<open>Infinity\<close>, and the cost of \<open>v\<close> is that
  number plus the cost of the entry, again below \<open>Infinity\<close>; and the links go down a
  rank, by which the visited nodes are ordered in the order of their visits, below
  all unvisited ones.
\<close>

definition inv_unv :: "graph \<Rightarrow> search_state \<Rightarrow> bool" where
  "inv_unv g s = (set (unvisited s) \<subseteq> dom g)"

definition inv_proto :: "search_state \<Rightarrow> bool" where
  "inv_proto s = (costs s ''__proto__'' = None)"

definition inv_init :: "(string \<rightharpoonup> jsnum) \<Rightarrow> search_state \<Rightarrow> bool" where
  "inv_init c0 s = (\<forall>v. previous s v = None \<longrightarrow> costs s v = c0 v)"

definition inv_prev :: "graph \<Rightarrow> search_state \<Rightarrow> bool" where
  "inv_prev g s =
    (\<forall>v p. previous s v = Some p \<longrightarrow>
       v \<in> dom g \<and> v \<noteq> prev_from p \<and>
       (\<exists>nbs nb a. g (prev_from p) = Some nbs \<and> nb \<in> set nbs \<and> nb_node nb = v \<and>
          nb_edge nb = prev_edge p \<and> costs s (prev_from p) = Some a \<and>
          num_lt a Infinity \<and> costs s v = Some (js_add a (nb_cost nb)) \<and>
          num_lt (js_add a (nb_cost nb)) Infinity))"

definition ranked :: "(string \<rightharpoonup> prev) \<Rightarrow> (string \<Rightarrow> nat) \<Rightarrow> bool" where
  "ranked prv r = (\<forall>v p. prv v = Some p \<longrightarrow> r (prev_from p) < r v)"

definition inv_rank :: "search_state \<Rightarrow> bool" where
  "inv_rank s =
    (\<exists>r K. (\<forall>w. w \<notin> set (unvisited s) \<longrightarrow> r w < K) \<and>
           (\<forall>v \<in> set (unvisited s). r v = K) \<and> ranked (previous s) r)"

definition search_inv :: "graph \<Rightarrow> (string \<rightharpoonup> jsnum) \<Rightarrow> search_state \<Rightarrow> bool" where
  "search_inv g c0 s =
    (inv_unv g s \<and> inv_proto s \<and> inv_init c0 s \<and> inv_prev g s \<and> inv_rank s)"

text \<open>Every predecessor link leads to a node that has a link of its own, or to the
  source.\<close>

definition rooted :: "(string \<rightharpoonup> prev) \<Rightarrow> string \<Rightarrow> bool" where
  "rooted prv source =
    (\<forall>v p. prv v = Some p \<longrightarrow> prv (prev_from p) \<noteq> None \<or> prev_from p = source)"

text \<open>Two nodes are connected in a graph when adjacency entries lead from the first to
  the second.\<close>

inductive connected :: "graph \<Rightarrow> string \<Rightarrow> string \<Rightarrow> bool" for g :: graph where
  here: "connected g u u"
| step: "connected g u v \<Longrightarrow> g v = Some nbs \<Longrightarrow> nb \<in> set nbs \<Longrightarrow>
         connected g u (nb_node nb)"

text \<open>A graph without the adjacency entries that lead from a node to itself.\<close>

definition drop_loops :: "graph \<Rightarrow> graph" where
  "drop_loops g k = map_option (filter (\<lambda>nb. nb_node nb \<noteq> k)) (g k)"

section \<open>Rounding: lemmas\<close>

lemma round_even_int: "round_even (of_int n) = n"
  by (simp add: round_even_def)

lemma round_even_nonneg: "0 \<le> q \<Longrightarrow> 0 \<le> round_even q"
  by (simp add: round_even_def)

lemma powr_powi: "2 powr real_of_int j = (2::real) powi j"
  using powr_real_of_int' [of 2 j] by simp

lemma powr_powi_Suc: "2 powr (real_of_int j + 1) = (2::real) powi (j + 1)"
  using powr_powi [of "j + 1"] by simp

lemma binade:
  assumes "x \<noteq> 0"
  shows "2 powi \<lfloor>log 2 \<bar>x\<bar>\<rfloor> \<le> \<bar>x\<bar> \<and> \<bar>x\<bar> < 2 powi (\<lfloor>log 2 \<bar>x\<bar>\<rfloor> + 1)"
  using floor_log_eq_powr_iff [of "\<bar>x\<bar>" 2 "\<lfloor>log 2 \<bar>x\<bar>\<rfloor>"] assms
  by (simp add: powr_powi powr_powi_Suc)

lemma binade_unique:
  assumes "2 powi k \<le> \<bar>x\<bar>" "\<bar>x\<bar> < 2 powi (k + 1)"
  shows "\<lfloor>log 2 \<bar>x\<bar>\<rfloor> = k"
proof -
  have "(0::real) < 2 powi k" by simp
  with assms(1) have pos: "0 < \<bar>x\<bar>" by linarith
  with assms show ?thesis
    using floor_log_eq_powr_iff [of "\<bar>x\<bar>" 2 k] by (simp add: powr_powi powr_powi_Suc)
qed

text \<open>A number on the grid of its binade is returned unchanged, short of overflow.\<close>

lemma fl_grid:
  assumes "2 powi k \<le> \<bar>x\<bar>" "\<bar>x\<bar> < 2 powi (k + 1)"
    and "x = of_int n * 2 powi (max k (- 1022) - 52)"
  shows "fl x = (if 2 ^ 1024 \<le> x then Infinity
                 else if x \<le> - (2 ^ 1024) then MinusInfinity else Num x)"
proof -
  have "(0::real) < 2 powi k" by simp
  with assms(1) have "0 < \<bar>x\<bar>" by linarith
  then have nz: "x \<noteq> 0" by auto
  define u :: real where "u = 2 powi ulp_exp x"
  have e: "ulp_exp x = max k (- 1022) - 52"
    using binade_unique [OF assms(1,2)] by (simp add: ulp_exp_def)
  have ue: "u = 2 powi (max k (- 1022) - 52)" by (simp add: u_def e)
  have u: "u \<noteq> 0" by (simp add: ue)
  have xu: "x = of_int n * u" by (simp only: ue assms(3))
  from u xu have "x / u = of_int n" by simp
  then have "of_int (round_even (x / u)) * u = x"
    using xu by (simp add: round_even_int)
  with nz show ?thesis by (simp add: fl_def u_def)
qed

text \<open>Every \<open>m * 2^e\<close> with \<open>|m| < 2^53\<close> and \<open>e \<ge> -1074\<close> below the overflow threshold
  is a double, and rounding leaves it as it is.\<close>

lemma fl_double:
  assumes x: "x = of_int m * 2 powi e" and m: "\<bar>m\<bar> < 2 ^ 53" and e: "- 1074 \<le> e"
    and small: "\<bar>x\<bar> < 2 ^ 1024"
  shows "fl x = Num x"
proof (cases "x = 0")
  case True
  then show ?thesis by (simp add: fl_def)
next
  case False
  define k where "k = \<lfloor>log 2 \<bar>x\<bar>\<rfloor>"
  from binade [OF False] have lo: "2 powi k \<le> \<bar>x\<bar>" and hi: "\<bar>x\<bar> < 2 powi (k + 1)"
    by (simp_all add: k_def)
  have "\<bar>x\<bar> = of_int \<bar>m\<bar> * 2 powi e"
    by (simp add: x abs_mult)
  also have "\<dots> < 2 ^ 53 * 2 powi e"
  proof -
    have "real_of_int \<bar>m\<bar> < 2 ^ 53" using m by (metis of_int_less_iff of_int_numeral of_int_power)
    then show ?thesis by (simp add: zero_less_power_int)
  qed
  also have "\<dots> = 2 powi (53 + e)"
    by (simp add: power_int_add)
  finally have "2 powi k < (2::real) powi (53 + e)" using lo by simp
  then have "k < 53 + e"
    by (smt (verit) power_int_increasing)
  with e have le: "max k (- 1022) - 52 \<le> e" by simp
  define d where "d = nat (e - (max k (- 1022) - 52))"
  have "(2::real) powi e = 2 ^ d * 2 powi (max k (- 1022) - 52)"
  proof -
    have "e = int d + (max k (- 1022) - 52)" using le by (simp add: d_def)
    then have "(2::real) powi e = 2 powi (int d + (max k (- 1022) - 52))" by simp
    also have "\<dots> = 2 powi int d * 2 powi (max k (- 1022) - 52)"
      by (simp add: power_int_add)
    finally show ?thesis by simp
  qed
  then have "x = of_int (m * 2 ^ d) * 2 powi (max k (- 1022) - 52)"
    by (simp add: x)
  from fl_grid [OF lo hi this] small show ?thesis by (simp add: abs_less_iff)
qed

lemma fl_int: "\<bar>i\<bar> < 2 ^ 53 \<Longrightarrow> fl (of_int i) = Num (of_int i)"
proof -
  assume a: "\<bar>i\<bar> < 2 ^ 53"
  then have "\<bar>real_of_int i\<bar> < 2 ^ 53"
    by (metis of_int_abs of_int_less_iff of_int_numeral of_int_power)
  moreover have "(2::real) ^ 53 < 2 ^ 1024" by simp
  ultimately have "\<bar>real_of_int i\<bar> < 2 ^ 1024" by (rule less_trans)
  with fl_double [of "of_int i" i 0] a show ?thesis by simp
qed

lemma fl_numeral [simp]:
  "numeral w < (9007199254740992::int) \<Longrightarrow> fl (numeral w) = Num (numeral w)"
  using fl_int [of "numeral w"] by simp

lemma fl_neg_numeral [simp]:
  "numeral w < (9007199254740992::int) \<Longrightarrow> fl (- numeral w) = Num (- numeral w)"
  using fl_int [of "- numeral w"] by simp

lemma fl_0 [simp]: "fl 0 = Num 0"
  by (simp add: fl_def)

lemma fl_1 [simp]: "fl 1 = Num 1"
  using fl_int [of 1] by simp

lemma fl_nonneg:
  assumes "0 \<le> x"
  shows "fl x = Infinity \<or> (\<exists>r. fl x = Num r \<and> 0 \<le> r)"
proof (cases "x = 0")
  case True
  then show ?thesis by simp
next
  case False
  have "0 \<le> x / 2 powi ulp_exp x" using assms by (simp add: zero_le_power_int)
  then have "0 \<le> round_even (x / 2 powi ulp_exp x)" by (rule round_even_nonneg)
  then have "0 \<le> real_of_int (round_even (x / 2 powi ulp_exp x)) * 2 powi ulp_exp x"
    by (simp add: zero_le_power_int)
  with False show ?thesis by (auto simp: fl_def Let_def)
qed

lemma fl_2_1024: "fl (2 ^ 1023 + 2 ^ 1023) = Infinity"
proof -
  have eq: "(2::real) ^ 1023 + 2 ^ 1023 = 2 ^ 1024" by simp
  have "fl (2 ^ 1024) = Infinity"
    using fl_grid [of 1024 "2 ^ 1024" "2 ^ 52"]
    by (simp add: power_int_add power_int_diff)
  with eq show ?thesis by simp
qed

text \<open>Rounding within a binade.\<close>

lemma fl_binade_eval:
  assumes "2 powi k \<le> \<bar>x\<bar>" "\<bar>x\<bar> < 2 powi (k + 1)" "- 1022 \<le> k"
    and "r = real_of_int (round_even (x / 2 powi (k - 52))) * 2 powi (k - 52)"
  shows "fl x =
    (if 2 ^ 1024 \<le> r then Infinity else if r \<le> - (2 ^ 1024) then MinusInfinity else Num r)"
proof -
  have "(0::real) < 2 powi k" by simp
  with assms(1) have "0 < \<bar>x\<bar>" by linarith
  then have nz: "x \<noteq> 0" by auto
  have e: "ulp_exp x = k - 52"
    using binade_unique [OF assms(1,2)] assms(3) by (simp add: ulp_exp_def)
  from nz show ?thesis by (simp add: fl_def e Let_def assms(4))
qed

text \<open>
  \<open>2^53 = 9007199254740992\<close> is a double; \<open>2^53 + 1\<close> is not, and the tie goes to the
  even significand.
\<close>

lemma fl_2_53: "fl 9007199254740992 = Num 9007199254740992"
  using fl_double [of 9007199254740992 "2 ^ 52" 1] by simp

lemma fl_tie: "fl 9007199254740993 = Num 9007199254740992"
proof -
  have f: "\<lfloor>(9007199254740993::real) / 2\<rfloor> = 4503599627370496"
    by simp
  have r: "round_even (9007199254740993 / 2) = 4503599627370496"
    unfolding round_even_def f by simp
  have "(9007199254740992::real) =
      real_of_int (round_even (9007199254740993 / 2 powi (53 - 52))) * 2 powi (53 - 52)"
    using r by simp
  from fl_binade_eval [of 53 9007199254740993, OF _ _ _ this]
  show ?thesis by simp
qed

section \<open>Adjacency construction: lemmas\<close>

lemma connected_isolated: "connected g u v \<Longrightarrow> g u = Some [] \<Longrightarrow> v = u"
  by (induction rule: connected.induct) auto

lemma error_eq [simp]: "(a::error) = b"
  by (cases a; cases b) simp

lemma fold_init_graph:
  "fold (\<lambda>n g. g(node_id n \<mapsto> [])) ns g0 k =
     (if k \<in> node_id ` set ns then Some [] else g0 k)"
  by (induction ns arbitrary: g0) auto

lemma init_graph_apply: "init_graph ns k = (if k \<in> node_ids ns then Some [] else None)"
  by (simp add: init_graph_def node_ids_def fold_init_graph)

lemma dom_init_graph: "dom (init_graph ns) = node_ids ns"
  by (auto simp: init_graph_apply dom_def)

lemma push_neighbor_Inr:
  "push_neighbor g k nb = Inr g' \<longleftrightarrow> (\<exists>l. g k = Some l \<and> g' = g(k \<mapsto> l @ [nb]))"
  by (auto simp: push_neighbor_def split: option.splits)

lemma push_neighbor_Inl: "push_neighbor g k nb = Inl err \<longleftrightarrow> g k = None"
  by (auto simp: push_neighbor_def split: option.splits)

lemma push_neighbor_dom:
  assumes "push_neighbor g k nb = Inr g'"
  shows "dom g' = dom g"
proof -
  from assms obtain l where "g k = Some l" and "g' = g(k \<mapsto> l @ [nb])"
    by (auto simp: push_neighbor_Inr)
  then show ?thesis by (simp add: insert_absorb domI)
qed

lemma push_neighbor_ok:
  "push_neighbor g k nb = Inr g' \<Longrightarrow> graph_ok P g \<Longrightarrow> P k nb \<Longrightarrow> graph_ok P g'"
  by (auto simp: push_neighbor_Inr graph_ok_def split: if_splits)

lemma add_edge_dom:
  assumes "add_edge tf mc g e = Inr g'"
  shows "dom g' = dom g"
proof (cases "admissible tf mc e")
  case False
  with assms show ?thesis by (simp add: add_edge_def)
next
  case True
  with assms obtain g1 where
    "push_neighbor g (start e)
       \<lparr>nb_node = end_node e, nb_cost = calculateEdgeCost e, nb_edge = e\<rparr> = Inr g1"
    and "push_neighbor g1 (end_node e)
       \<lparr>nb_node = start e, nb_cost = calculateEdgeCost e, nb_edge = e\<rparr> = Inr g'"
    by (auto simp: add_edge_def split: sum.splits)
  then show ?thesis by (simp add: push_neighbor_dom)
qed

lemma add_edge_ok:
  assumes "add_edge tf mc g e = Inr g'" "graph_ok (entry_ok tf mc es) g" "e \<in> set es"
  shows "graph_ok (entry_ok tf mc es) g'"
proof (cases "admissible tf mc e")
  case False
  with assms show ?thesis by (simp add: add_edge_def)
next
  case True
  with assms(1) obtain g1 where
    g1: "push_neighbor g (start e)
           \<lparr>nb_node = end_node e, nb_cost = calculateEdgeCost e, nb_edge = e\<rparr> = Inr g1"
    and g': "push_neighbor g1 (end_node e)
           \<lparr>nb_node = start e, nb_cost = calculateEdgeCost e, nb_edge = e\<rparr> = Inr g'"
    by (auto simp: add_edge_def split: sum.splits)
  have "graph_ok (entry_ok tf mc es) g1"
    using g1 assms(2) by (rule push_neighbor_ok) (simp add: entry_ok_def True assms(3))
  with g' show ?thesis
    by (rule push_neighbor_ok) (simp add: entry_ok_def True assms(3))
qed

lemma add_edge_Inl:
  "add_edge tf mc g e = Inl err \<longleftrightarrow>
     admissible tf mc e \<and> (start e \<notin> dom g \<or> end_node e \<notin> dom g)"
  by (auto simp: add_edge_def push_neighbor_Inl push_neighbor_Inr domIff
           split: sum.splits if_splits)

lemma add_edges_dom: "add_edges tf mc g es = Inr g' \<Longrightarrow> dom g' = dom g"
proof (induction es arbitrary: g)
  case Nil
  then show ?case by simp
next
  case (Cons e es)
  from Cons.prems obtain g1 where "add_edge tf mc g e = Inr g1"
    and "add_edges tf mc g1 es = Inr g'"
    by (auto split: sum.splits)
  then show ?case using Cons.IH [of g1] by (simp add: add_edge_dom)
qed

lemma add_edges_ok:
  "add_edges tf mc g es = Inr g' \<Longrightarrow> graph_ok (entry_ok tf mc es0) g \<Longrightarrow>
   set es \<subseteq> set es0 \<Longrightarrow> graph_ok (entry_ok tf mc es0) g'"
proof (induction es arbitrary: g)
  case Nil
  then show ?case by simp
next
  case (Cons e es)
  from Cons.prems(1) obtain g1 where g1: "add_edge tf mc g e = Inr g1"
    and rest: "add_edges tf mc g1 es = Inr g'"
    by (auto split: sum.splits)
  from g1 Cons.prems(2,3) have "graph_ok (entry_ok tf mc es0) g1"
    by (auto intro: add_edge_ok)
  with rest Cons.prems(3) show ?case by (auto intro: Cons.IH)
qed

lemma add_edges_Inl:
  "add_edges tf mc g es = Inl err \<longleftrightarrow>
     (\<exists>e \<in> set es. admissible tf mc e \<and> (start e \<notin> dom g \<or> end_node e \<notin> dom g))"
proof (induction es arbitrary: g)
  case Nil
  then show ?case by simp
next
  case (Cons e es)
  show ?case
  proof (cases "add_edge tf mc g e")
    case (Inl err')
    then show ?thesis using add_edge_Inl [of tf mc g e err'] by auto
  next
    case (Inr g1)
    have no: "\<not> (admissible tf mc e \<and> (start e \<notin> dom g \<or> end_node e \<notin> dom g))"
      using Inr add_edge_Inl [of tf mc g e TypeError] by simp
    from Inr have "dom g1 = dom g" by (rule add_edge_dom)
    with Inr no show ?thesis by (auto simp: Cons.IH)
  qed
qed

lemma add_edges_cong:
  "(\<And>e. e \<in> set es \<Longrightarrow> admissible tf mc e = admissible tf' mc' e) \<Longrightarrow>
   add_edges tf mc g es = add_edges tf' mc' g es"
  by (induction es arbitrary: g) (auto simp: add_edge_def split: sum.splits)

lemma build_graph_dom: "build_graph ns es tf mc = Inr g \<Longrightarrow> dom g = node_ids ns"
  using add_edges_dom [of tf mc "init_graph ns" es g]
  by (simp add: build_graph_def dom_init_graph)

lemma build_graph_ok: "build_graph ns es tf mc = Inr g \<Longrightarrow> graph_ok (entry_ok tf mc es) g"
  unfolding build_graph_def
  by (erule add_edges_ok) (auto simp: graph_ok_def init_graph_apply split: if_splits)

lemma build_graph_Inl:
  "build_graph ns es tf mc = Inl err \<longleftrightarrow>
     (\<exists>e \<in> set es. admissible tf mc e \<and> (start e \<notin> node_ids ns \<or> end_node e \<notin> node_ids ns))"
  by (simp add: build_graph_def add_edges_Inl dom_init_graph)

lemma build_graph_well_formed:
  "well_formed ns es \<Longrightarrow> \<exists>g. build_graph ns es tf mc = Inr g"
  using build_graph_Inl [of ns es tf mc TypeError]
  by (cases "build_graph ns es tf mc") (auto simp: well_formed_def)

text \<open>Entries stay where they are when more edges are added.\<close>

lemma push_neighbor_keeps:
  "push_neighbor g k nb = Inr g' \<Longrightarrow> g j = Some l \<Longrightarrow> x \<in> set l \<Longrightarrow>
   \<exists>l'. g' j = Some l' \<and> x \<in> set l'"
  by (auto simp: push_neighbor_Inr)

lemma add_edge_keeps:
  assumes "add_edge tf mc g e = Inr g'" "g j = Some l" "x \<in> set l"
  shows "\<exists>l'. g' j = Some l' \<and> x \<in> set l'"
proof (cases "admissible tf mc e")
  case False
  with assms show ?thesis by (simp add: add_edge_def)
next
  case True
  with assms(1) obtain g1 where
    g1: "push_neighbor g (start e)
           \<lparr>nb_node = end_node e, nb_cost = calculateEdgeCost e, nb_edge = e\<rparr> = Inr g1"
    and g': "push_neighbor g1 (end_node e)
           \<lparr>nb_node = start e, nb_cost = calculateEdgeCost e, nb_edge = e\<rparr> = Inr g'"
    by (auto simp: add_edge_def split: sum.splits)
  from push_neighbor_keeps [OF g1 assms(2,3)] obtain l1 where "g1 j = Some l1" "x \<in> set l1"
    by blast
  with g' show ?thesis by (rule push_neighbor_keeps)
qed

lemma add_edges_keeps:
  "add_edges tf mc g es = Inr g' \<Longrightarrow> g j = Some l \<Longrightarrow> x \<in> set l \<Longrightarrow>
   \<exists>l'. g' j = Some l' \<and> x \<in> set l'"
proof (induction es arbitrary: g l)
  case Nil
  then show ?case by simp
next
  case (Cons e es)
  from Cons.prems(1) obtain g1 where g1: "add_edge tf mc g e = Inr g1"
    and rest: "add_edges tf mc g1 es = Inr g'"
    by (auto split: sum.splits)
  from add_edge_keeps [OF g1 Cons.prems(2,3)] obtain l1 where "g1 j = Some l1" "x \<in> set l1"
    by blast
  with rest show ?case by (rule Cons.IH)
qed

lemma add_edge_entered:
  assumes "add_edge tf mc g e = Inr g'" "admissible tf mc e"
  shows "\<exists>l. g' (start e) = Some l \<and>
    \<lparr>nb_node = end_node e, nb_cost = calculateEdgeCost e, nb_edge = e\<rparr> \<in> set l"
proof -
  from assms obtain g1 where
    g1: "push_neighbor g (start e)
           \<lparr>nb_node = end_node e, nb_cost = calculateEdgeCost e, nb_edge = e\<rparr> = Inr g1"
    and g': "push_neighbor g1 (end_node e)
           \<lparr>nb_node = start e, nb_cost = calculateEdgeCost e, nb_edge = e\<rparr> = Inr g'"
    by (auto simp: add_edge_def split: sum.splits)
  from g1 have "\<exists>l. g1 (start e) = Some l \<and>
      \<lparr>nb_node = end_node e, nb_cost = calculateEdgeCost e, nb_edge = e\<rparr> \<in> set l"
    by (auto simp: push_neighbor_Inr)
  then obtain l1 where "g1 (start e) = Some l1"
    "\<lparr>nb_node = end_node e, nb_cost = calculateEdgeCost e, nb_edge = e\<rparr> \<in> set l1"
    by blast
  with g' show ?thesis by (rule push_neighbor_keeps)
qed

lemma add_edges_entered:
  "add_edges tf mc g es = Inr g' \<Longrightarrow> e \<in> set es \<Longrightarrow> admissible tf mc e \<Longrightarrow>
   \<exists>l. g' (start e) = Some l \<and>
     \<lparr>nb_node = end_node e, nb_cost = calculateEdgeCost e, nb_edge = e\<rparr> \<in> set l"
proof (induction es arbitrary: g)
  case Nil
  then show ?case by simp
next
  case (Cons e' es)
  from Cons.prems(1) obtain g1 where g1: "add_edge tf mc g e' = Inr g1"
    and rest: "add_edges tf mc g1 es = Inr g'"
    by (auto split: sum.splits)
  show ?case
  proof (cases "e = e'")
    case True
    with add_edge_entered [OF g1] Cons.prems(3) obtain l1 where "g1 (start e) = Some l1"
      "\<lparr>nb_node = end_node e, nb_cost = calculateEdgeCost e, nb_edge = e\<rparr> \<in> set l1"
      by blast
    with rest show ?thesis by (rule add_edges_keeps)
  next
    case False
    with Cons.prems(2) have "e \<in> set es" by simp
    with rest show ?thesis using Cons.prems(3) by (rule Cons.IH)
  qed
qed

lemma build_graph_entered:
  "build_graph ns es tf mc = Inr g \<Longrightarrow> e \<in> set es \<Longrightarrow> admissible tf mc e \<Longrightarrow>
   \<exists>l. g (start e) = Some l \<and>
     \<lparr>nb_node = end_node e, nb_cost = calculateEdgeCost e, nb_edge = e\<rparr> \<in> set l"
  unfolding build_graph_def by (rule add_edges_entered)

section \<open>Selection and relaxation: lemmas\<close>

lemma num_lt_Infinity: "num_lt x y \<Longrightarrow> num_lt x Infinity"
  by (cases x; cases y) auto

lemma get_cost_Number: "get_cost cs k = Number a \<longleftrightarrow> cs k = Some a"
  by (auto simp: get_cost_def split: option.splits)

lemma js_lt_Number: "js_lt (get_cost cs k) b \<Longrightarrow> \<exists>a. cs k = Some a \<and> num_lt a Infinity"
  by (cases "get_cost cs k")
     (auto simp: js_lt_def get_cost_Number dest: num_lt_Infinity)

lemma select_fold:
  "fst (fold (select_step cs) unv cm) = Some k \<Longrightarrow>
   fst cm = Some k \<or> (k \<in> set unv \<and> (\<exists>a. cs k = Some a \<and> num_lt a Infinity))"
proof (induction unv arbitrary: cm)
  case Nil
  then show ?case by simp
next
  case (Cons n unv)
  from Cons.prems have "fst (fold (select_step cs) unv (select_step cs n cm)) = Some k"
    by simp
  from Cons.IH [OF this] show ?case
    by (auto simp: select_step_def split: if_splits dest: js_lt_Number)
qed

text \<open>A selected node is unvisited, and its cost is a number below \<open>Infinity\<close>.\<close>

lemma select_min_Some:
  "fst (select_min cs unv) = Some k \<Longrightarrow>
   k \<in> set unv \<and> (\<exists>a. cs k = Some a \<and> num_lt a Infinity)"
  using select_fold [of cs unv "(None, Number Infinity)" k] by (simp add: select_min_def)

lemma relax_Cons: "relax unv cur (nb # nbs) cp = relax unv cur nbs (relax_step unv cur nb cp)"
  by (simp add: relax_def)

lemma relax_Nil: "relax unv cur [] cp = cp"
  by (simp add: relax_def)

lemma get_cost_proto: "cs ''__proto__'' = None \<Longrightarrow> to_number (get_cost cs ''__proto__'') = NaN"
  by (simp add: get_cost_def is_inherited_def)

lemma num_lt_NaN: "\<not> num_lt x NaN"
  by (cases x) auto

lemma relax_step_cases:
  assumes "fst cp ''__proto__'' = None"
  shows "relax_step unv cur nb cp = cp \<or>
   (nb_node nb \<in> set unv \<and> nb_node nb \<noteq> ''__proto__'' \<and>
    num_lt (js_add (to_number (get_cost (fst cp) cur)) (nb_cost nb)) Infinity \<and>
    relax_step unv cur nb cp =
      ((fst cp)(nb_node nb \<mapsto> js_add (to_number (get_cost (fst cp) cur)) (nb_cost nb)),
       (snd cp)(nb_node nb \<mapsto> \<lparr>prev_from = cur, prev_edge = nb_edge nb\<rparr>)))"
proof (cases "nb_node nb \<in> set unv \<and>
    num_lt (js_add (to_number (get_cost (fst cp) cur)) (nb_cost nb))
      (to_number (get_cost (fst cp) (nb_node nb)))")
  case False
  then show ?thesis by (auto simp: relax_step_def Let_def)
next
  case True
  then have "nb_node nb \<noteq> ''__proto__''"
    using get_cost_proto [of "fst cp"] assms num_lt_NaN by metis
  with True show ?thesis
    by (auto simp: relax_step_def Let_def set_cost_def dest: num_lt_Infinity)
qed

text \<open>The relaxation never assigns at the key \<open>__proto__\<close>.\<close>

lemma relax_step_proto:
  assumes "fst cp ''__proto__'' = None"
  shows "fst (relax_step unv cur nb cp) ''__proto__'' = None \<and>
    snd (relax_step unv cur nb cp) ''__proto__'' = snd cp ''__proto__''"
  using relax_step_cases [OF assms, of unv cur nb] assms by auto

lemma relax_proto:
  "fst cp ''__proto__'' = None \<Longrightarrow> fst (relax unv cur nbs cp) ''__proto__'' = None"
  by (induction nbs arbitrary: cp) (simp_all add: relax_Nil relax_Cons relax_step_proto)

lemma relax_step_outside:
  assumes "fst cp ''__proto__'' = None" "v \<notin> set unv"
  shows "fst (relax_step unv cur nb cp) v = fst cp v \<and>
    snd (relax_step unv cur nb cp) v = snd cp v"
  using relax_step_cases [OF assms(1), of unv cur nb] assms(2) by auto

lemma relax_outside:
  "fst cp ''__proto__'' = None \<Longrightarrow> v \<notin> set unv \<Longrightarrow>
   fst (relax unv cur nbs cp) v = fst cp v \<and> snd (relax unv cur nbs cp) v = snd cp v"
  by (induction nbs arbitrary: cp)
     (simp_all add: relax_Nil relax_Cons relax_step_outside relax_step_proto)

lemma relax_cases:
  assumes cur: "cur \<notin> set unv" and proto: "fst cp ''__proto__'' = None"
  shows "(fst (relax unv cur nbs cp) v = fst cp v \<and> snd (relax unv cur nbs cp) v = snd cp v) \<or>
    (v \<in> set unv \<and>
     (\<exists>nb \<in> set nbs. nb_node nb = v \<and>
        snd (relax unv cur nbs cp) v = Some \<lparr>prev_from = cur, prev_edge = nb_edge nb\<rparr> \<and>
        fst (relax unv cur nbs cp) v =
          Some (js_add (to_number (get_cost (fst cp) cur)) (nb_cost nb)) \<and>
        num_lt (js_add (to_number (get_cost (fst cp) cur)) (nb_cost nb)) Infinity))"
  using proto
proof (induction nbs arbitrary: cp)
  case Nil
  show ?case by (simp add: relax_Nil)
next
  case (Cons nb nbs)
  let ?cp1 = "relax_step unv cur nb cp"
  have p1: "fst ?cp1 ''__proto__'' = None"
    using Cons.prems by (simp add: relax_step_proto)
  have "fst ?cp1 cur = fst cp cur"
    using Cons.prems cur by (simp add: relax_step_outside)
  then have cur1: "get_cost (fst ?cp1) cur = get_cost (fst cp) cur"
    by (simp add: get_cost_def)
  from Cons.IH [OF p1] show ?case
  proof
    assume same: "fst (relax unv cur nbs ?cp1) v = fst ?cp1 v \<and>
      snd (relax unv cur nbs ?cp1) v = snd ?cp1 v"
    from relax_step_cases [OF Cons.prems, of unv cur nb] show ?thesis
    proof
      assume "?cp1 = cp"
      with same show ?thesis by (simp add: relax_Cons)
    next
      assume upd: "nb_node nb \<in> set unv \<and> nb_node nb \<noteq> ''__proto__'' \<and>
        num_lt (js_add (to_number (get_cost (fst cp) cur)) (nb_cost nb)) Infinity \<and>
        ?cp1 =
        ((fst cp)(nb_node nb \<mapsto> js_add (to_number (get_cost (fst cp) cur)) (nb_cost nb)),
         (snd cp)(nb_node nb \<mapsto> \<lparr>prev_from = cur, prev_edge = nb_edge nb\<rparr>))"
      show ?thesis
      proof (cases "v = nb_node nb")
        case True
        with same upd show ?thesis by (auto simp: relax_Cons)
      next
        case False
        with same upd show ?thesis by (auto simp: relax_Cons)
      qed
    qed
  next
    assume "v \<in> set unv \<and>
     (\<exists>nb' \<in> set nbs. nb_node nb' = v \<and>
        snd (relax unv cur nbs ?cp1) v = Some \<lparr>prev_from = cur, prev_edge = nb_edge nb'\<rparr> \<and>
        fst (relax unv cur nbs ?cp1) v =
          Some (js_add (to_number (get_cost (fst ?cp1) cur)) (nb_cost nb')) \<and>
        num_lt (js_add (to_number (get_cost (fst ?cp1) cur)) (nb_cost nb')) Infinity)"
    then show ?thesis
      by (auto simp: relax_Cons cur1)
  qed
qed

lemma foldl_set_add: "set (foldl set_add acc ks) = set acc \<union> set ks"
  by (induction ks arbitrary: acc) (auto simp: set_add_def)

lemma set_new_Set: "set (new_Set ks) = set ks"
  by (simp add: new_Set_def foldl_set_add)

lemma set_cost_apply:
  "set_cost cs k v j = (if k = ''__proto__'' then cs j else if j = k then Some v else cs j)"
  by (simp add: set_cost_def)

lemma fold_init_costs:
  "fold (\<lambda>n c. set_cost c (node_id n) Infinity) ns c0 k =
     (if k \<in> node_id ` set ns \<and> k \<noteq> ''__proto__'' then Some Infinity else c0 k)"
  by (induction ns arbitrary: c0) (auto simp: set_cost_def)

lemma init_costs_apply:
  "init_costs ns source v =
    (if v = ''__proto__'' then None
     else if v = source then Some (Num 0)
     else if v \<in> node_ids ns then Some Infinity else None)"
  by (simp add: init_costs_def set_cost_apply fold_init_costs node_ids_def)

lemma init_costs_below:
  "init_costs ns source v = Some a \<Longrightarrow> num_lt a Infinity \<Longrightarrow> v = source \<and> a = Num 0"
  by (auto simp: init_costs_apply split: if_splits)

section \<open>The invariant of the main loop\<close>

lemma visit_unvisited: "unvisited (visit s cur nbs) = removeAll cur (unvisited s)"
  by (simp add: visit_def Let_def)

lemma visit_inv_proto: "inv_proto s \<Longrightarrow> inv_proto (visit s cur nbs)"
  by (simp add: inv_proto_def visit_def Let_def relax_proto)

lemma visit_outside:
  "inv_proto s \<Longrightarrow> v \<notin> set (unvisited s) \<or> v = cur \<Longrightarrow>
   costs (visit s cur nbs) v = costs s v \<and> previous (visit s cur nbs) v = previous s v"
  using relax_outside [of "(costs s, previous s)" v "removeAll cur (unvisited s)" cur nbs]
  by (auto simp: visit_def Let_def inv_proto_def)

lemma visit_cases:
  assumes "inv_proto s"
  shows
  "(costs (visit s cur nbs) v = costs s v \<and> previous (visit s cur nbs) v = previous s v) \<or>
   (v \<in> set (unvisited s) \<and> v \<noteq> cur \<and>
    (\<exists>nb \<in> set nbs. nb_node nb = v \<and>
       previous (visit s cur nbs) v = Some \<lparr>prev_from = cur, prev_edge = nb_edge nb\<rparr> \<and>
       costs (visit s cur nbs) v =
         Some (js_add (to_number (get_cost (costs s) cur)) (nb_cost nb)) \<and>
       num_lt (js_add (to_number (get_cost (costs s) cur)) (nb_cost nb)) Infinity))"
  using relax_cases [of cur "removeAll cur (unvisited s)" "(costs s, previous s)" nbs v] assms
  by (auto simp: visit_def Let_def inv_proto_def)

lemma inv_rank_from:
  assumes "inv_rank s" "previous s v = Some p"
  shows "prev_from p \<notin> set (unvisited s)"
proof
  assume mem: "prev_from p \<in> set (unvisited s)"
  from assms(1) obtain r K where
    lo: "\<forall>w. w \<notin> set (unvisited s) \<longrightarrow> r w < K" and
    hi: "\<forall>v \<in> set (unvisited s). r v = K" and rk: "ranked (previous s) r"
    by (auto simp: inv_rank_def)
  from rk assms(2) have "r (prev_from p) < r v" by (simp add: ranked_def)
  moreover from hi mem have "r (prev_from p) = K" by simp
  moreover have "r v \<le> K" using lo hi by (cases "v \<in> set (unvisited s)") (auto simp: less_imp_le)
  ultimately show False by simp
qed

lemma visit_inv_unv: "inv_unv g s \<Longrightarrow> inv_unv g (visit s cur nbs)"
  by (auto simp: inv_unv_def visit_unvisited)

lemma visit_inv_init:
  assumes "inv_proto s"
  shows "inv_init c0 s \<Longrightarrow> inv_init c0 (visit s cur nbs)"
  unfolding inv_init_def
proof (intro allI impI)
  fix v
  assume old: "\<forall>v. previous s v = None \<longrightarrow> costs s v = c0 v"
    and none: "previous (visit s cur nbs) v = None"
  from visit_cases [OF assms, of cur nbs v] none
  have "costs (visit s cur nbs) v = costs s v \<and> previous (visit s cur nbs) v = previous s v"
    by auto
  with old none show "costs (visit s cur nbs) v = c0 v" by simp
qed

lemma visit_inv_prev:
  assumes inv: "inv_prev g s" and rk: "inv_rank s" and unv: "inv_unv g s"
    and proto: "inv_proto s"
    and cur: "costs s cur = Some a" and below: "num_lt a Infinity" and g: "g cur = Some nbs"
  shows "inv_prev g (visit s cur nbs)"
  unfolding inv_prev_def
proof (intro allI impI)
  fix v p
  let ?s' = "visit s cur nbs"
  assume pv: "previous ?s' v = Some p"
  from visit_cases [OF proto, of cur nbs v]
  show "v \<in> dom g \<and> v \<noteq> prev_from p \<and>
       (\<exists>nbs nb a. g (prev_from p) = Some nbs \<and> nb \<in> set nbs \<and> nb_node nb = v \<and>
          nb_edge nb = prev_edge p \<and> costs ?s' (prev_from p) = Some a \<and>
          num_lt a Infinity \<and> costs ?s' v = Some (js_add a (nb_cost nb)) \<and>
          num_lt (js_add a (nb_cost nb)) Infinity)"
  proof
    assume same: "costs ?s' v = costs s v \<and> previous ?s' v = previous s v"
    with pv have old: "previous s v = Some p" by simp
    from rk old have "prev_from p \<notin> set (unvisited s)" by (rule inv_rank_from)
    then have from_same: "costs ?s' (prev_from p) = costs s (prev_from p)"
      using proto by (simp add: visit_outside)
    from inv old obtain nbs0 nb0 a0 where "v \<in> dom g" "v \<noteq> prev_from p"
      "g (prev_from p) = Some nbs0" "nb0 \<in> set nbs0" "nb_node nb0 = v"
      "nb_edge nb0 = prev_edge p" "costs s (prev_from p) = Some a0" "num_lt a0 Infinity"
      "costs s v = Some (js_add a0 (nb_cost nb0))"
      "num_lt (js_add a0 (nb_cost nb0)) Infinity"
      unfolding inv_prev_def by blast
    with from_same same show ?thesis by auto
  next
    assume "v \<in> set (unvisited s) \<and> v \<noteq> cur \<and>
      (\<exists>nb \<in> set nbs. nb_node nb = v \<and>
         previous ?s' v = Some \<lparr>prev_from = cur, prev_edge = nb_edge nb\<rparr> \<and>
         costs ?s' v = Some (js_add (to_number (get_cost (costs s) cur)) (nb_cost nb)) \<and>
         num_lt (js_add (to_number (get_cost (costs s) cur)) (nb_cost nb)) Infinity)"
    then obtain nb where v: "v \<in> set (unvisited s)" "v \<noteq> cur" and nb: "nb \<in> set nbs"
      "nb_node nb = v" and p': "previous ?s' v = Some \<lparr>prev_from = cur, prev_edge = nb_edge nb\<rparr>"
      and c': "costs ?s' v = Some (js_add (to_number (get_cost (costs s) cur)) (nb_cost nb))"
      and b': "num_lt (js_add (to_number (get_cost (costs s) cur)) (nb_cost nb)) Infinity"
      by auto
    from pv p' have p: "prev_from p = cur" "prev_edge p = nb_edge nb" by auto
    from cur have gc: "to_number (get_cost (costs s) cur) = a" by (simp add: get_cost_def)
    have "costs ?s' cur = Some a" using cur proto by (simp add: visit_outside)
    moreover have "costs ?s' v = Some (js_add a (nb_cost nb))" using c' gc by simp
    moreover have "num_lt (js_add a (nb_cost nb)) Infinity" using b' gc by simp
    moreover have "v \<in> dom g" using unv v(1) by (auto simp: inv_unv_def)
    ultimately show ?thesis using v(2) nb g p below by auto
  qed
qed

lemma visit_inv_rank:
  assumes rk: "inv_rank s" and mem: "cur \<in> set (unvisited s)" and proto: "inv_proto s"
  shows "inv_rank (visit s cur nbs)"
proof -
  let ?s' = "visit s cur nbs"
  let ?U = "set (unvisited s)"
  from rk obtain r K where
    lo: "\<And>w. w \<notin> ?U \<Longrightarrow> r w < K" and
    hi: "\<And>v. v \<in> ?U \<Longrightarrow> r v = K" and rkd: "ranked (previous s) r"
    by (auto simp: inv_rank_def)
  have U': "w \<in> set (unvisited ?s') \<longleftrightarrow> w \<in> ?U \<and> w \<noteq> cur" for w
    by (simp add: visit_unvisited)
  define r' where "r' w = (if w = cur then K else if w \<in> ?U then Suc K else r w)" for w
  have le: "r w \<le> K" for w
    using lo [of w] hi [of w] by (cases "w \<in> ?U") simp_all
  have lo': "\<forall>w. w \<notin> set (unvisited ?s') \<longrightarrow> r' w < Suc K"
  proof (intro allI impI)
    fix w assume "w \<notin> set (unvisited ?s')"
    then have "w = cur \<or> w \<notin> ?U" by (auto simp: U')
    then show "r' w < Suc K" using lo [of w] by (auto simp: r'_def less_Suc_eq)
  qed
  have hi': "\<forall>v \<in> set (unvisited ?s'). r' v = Suc K"
    by (simp add: U' r'_def)
  have "ranked (previous ?s') r'"
    unfolding ranked_def
  proof (intro allI impI)
    fix v p
    assume pv: "previous ?s' v = Some p"
    from visit_cases [OF proto, of cur nbs v] show "r' (prev_from p) < r' v"
    proof
      assume "costs ?s' v = costs s v \<and> previous ?s' v = previous s v"
      with pv have old: "previous s v = Some p" by simp
      with rkd have lt: "r (prev_from p) < r v" by (simp add: ranked_def)
      from rk old have nU: "prev_from p \<notin> ?U" by (rule inv_rank_from)
      with mem have ncur: "prev_from p \<noteq> cur" by auto
      from nU ncur have eq: "r' (prev_from p) = r (prev_from p)"
        by (simp add: r'_def)
      have ltK: "r (prev_from p) < K" using lt le [of v] by simp
      have "r (prev_from p) < r' v"
      proof (cases "v = cur")
        case True
        with ltK show ?thesis by (simp add: r'_def)
      next
        case False
        show ?thesis
        proof (cases "v \<in> ?U")
          case True
          with False ltK show ?thesis by (simp add: r'_def)
        next
          case nv: False
          with False lt show ?thesis by (simp add: r'_def)
        qed
      qed
      with eq show ?thesis by simp
    next
      assume "v \<in> ?U \<and> v \<noteq> cur \<and>
        (\<exists>nb \<in> set nbs. nb_node nb = v \<and>
           previous ?s' v = Some \<lparr>prev_from = cur, prev_edge = nb_edge nb\<rparr> \<and>
           costs ?s' v = Some (js_add (to_number (get_cost (costs s) cur)) (nb_cost nb)) \<and>
           num_lt (js_add (to_number (get_cost (costs s) cur)) (nb_cost nb)) Infinity)"
      with pv have "v \<in> ?U" "v \<noteq> cur" "prev_from p = cur" by auto
      then show ?thesis by (simp add: r'_def)
    qed
  qed
  with lo' hi' show ?thesis unfolding inv_rank_def by blast
qed

lemma visit_search_inv:
  assumes inv: "search_inv g c0 s" and mem: "cur \<in> set (unvisited s)"
    and fin: "costs s cur = Some a" and below: "num_lt a Infinity" and g: "g cur = Some nbs"
  shows "search_inv g c0 (visit s cur nbs)"
proof -
  from inv have u: "inv_unv g s" and pr: "inv_proto s" and i: "inv_init c0 s"
    and p: "inv_prev g s" and r: "inv_rank s"
    by (simp_all add: search_inv_def)
  from u have "inv_unv g (visit s cur nbs)" by (rule visit_inv_unv)
  moreover from pr have "inv_proto (visit s cur nbs)" by (rule visit_inv_proto)
  moreover from pr i have "inv_init c0 (visit s cur nbs)" by (rule visit_inv_init)
  moreover from p r u pr fin below g have "inv_prev g (visit s cur nbs)"
    by (rule visit_inv_prev)
  moreover from r mem pr have "inv_rank (visit s cur nbs)" by (rule visit_inv_rank)
  ultimately show ?thesis by (simp add: search_inv_def)
qed

lemma main_loop_stop:
  "unvisited s = [] \<or> fst (select_min (costs s) (unvisited s)) = None \<or>
   fst (select_min (costs s) (unvisited s)) = Some d \<Longrightarrow> main_loop g d s = Inr s"
  by (subst main_loop.simps) auto

lemma main_loop_visit:
  "unvisited s \<noteq> [] \<Longrightarrow> fst (select_min (costs s) (unvisited s)) = Some cur \<Longrightarrow>
   cur \<noteq> d \<Longrightarrow> g cur = Some nbs \<Longrightarrow> main_loop g d s = main_loop g d (visit s cur nbs)"
  by (subst main_loop.simps) simp

lemma main_loop_inv:
  "search_inv g c0 s \<Longrightarrow> \<exists>s'. main_loop g d s = Inr s' \<and> search_inv g c0 s'"
proof (induction g d s rule: main_loop.induct)
  case (1 g d s)
  show ?case
  proof (cases "unvisited s = [] \<or> fst (select_min (costs s) (unvisited s)) = None \<or>
      fst (select_min (costs s) (unvisited s)) = Some d")
    case True
    then have "main_loop g d s = Inr s" by (rule main_loop_stop)
    with "1.prems" show ?thesis by simp
  next
    case False
    then obtain cur where ne: "unvisited s \<noteq> []"
      and sel: "fst (select_min (costs s) (unvisited s)) = Some cur" and nd: "cur \<noteq> d"
      by auto
    from select_min_Some [OF sel] obtain a where
      mem: "cur \<in> set (unvisited s)" and fin: "costs s cur = Some a"
      and below: "num_lt a Infinity"
      by auto
    from "1.prems" mem obtain nbs where g: "g cur = Some nbs"
      by (auto simp: search_inv_def inv_unv_def)
    have "search_inv g c0 (visit s cur nbs)"
      using "1.prems" mem fin below g by (rule visit_search_inv)
    from "1.IH" [OF ne sel nd g this] obtain s' where
      "main_loop g d (visit s cur nbs) = Inr s'" and "search_inv g c0 s'"
      by blast
    moreover have "main_loop g d s = main_loop g d (visit s cur nbs)"
      using ne sel nd g by (rule main_loop_visit)
    ultimately show ?thesis by simp
  qed
qed

lemma init_search_inv:
  assumes "dom g = node_ids ns"
  shows "search_inv g (init_costs ns source) (init_state ns source)"
proof -
  have "inv_rank (init_state ns source)"
    unfolding inv_rank_def
    by (rule exI [of _ "\<lambda>w. if w \<in> set (unvisited (init_state ns source)) then 1 else 0"],
        rule exI [of _ 1]) (simp add: ranked_def init_state_def)
  then show ?thesis
    using assms
    by (simp add: search_inv_def inv_unv_def inv_proto_def inv_init_def inv_prev_def
          init_state_def set_new_Set node_ids_def init_costs_apply)
qed

text \<open>After the loop, a predecessor link leads to a node with a link, or to the source.\<close>

lemma search_inv_rooted:
  assumes "search_inv g (init_costs ns source) s"
  shows "rooted (previous s) source"
  unfolding rooted_def
proof (intro allI impI)
  fix v p
  assume "previous s v = Some p"
  with assms obtain a where a: "costs s (prev_from p) = Some a" "num_lt a Infinity"
    unfolding search_inv_def inv_prev_def by blast
  show "previous s (prev_from p) \<noteq> None \<or> prev_from p = source"
  proof (cases "previous s (prev_from p)")
    case None
    with assms have "costs s (prev_from p) = init_costs ns source (prev_from p)"
      by (simp add: search_inv_def inv_init_def)
    with a init_costs_below [of ns source "prev_from p" a] show ?thesis by simp
  next
    case (Some q)
    then show ?thesis by simp
  qed
qed

section \<open>Path reconstruction: lemmas\<close>

lemma reconstruct_own:
  "prv (key_of c) = Some p \<Longrightarrow>
   reconstruct prv c acc = reconstruct prv (Some (prev_from p)) (Some (prev_edge p) # acc)"
  by (subst reconstruct.simps) simp

lemma reconstruct_stop:
  "prv (key_of c) = None \<Longrightarrow> \<not> is_inherited (key_of c) \<Longrightarrow> reconstruct prv c acc = Some acc"
  by (subst reconstruct.simps) simp

lemma reconstruct_junk:
  "prv (key_of c) = None \<Longrightarrow> is_inherited (key_of c) \<Longrightarrow>
   reconstruct prv c acc = reconstruct prv None (None # acc)"
  by (subst reconstruct.simps) simp

lemma key_of_simps [simp]: "key_of (Some k) = k" "key_of None = ''undefined''"
  by (simp_all add: key_of_def)

lemma undefined_not_inherited: "\<not> is_inherited ''undefined''"
  by (simp add: is_inherited_def)

text \<open>
  A walk along ranked and rooted links, from a key that has a link or names no
  inherited property, and with a source that names none: it ends, and collects the
  edges of links only.
\<close>

lemma reconstruct_clean:
  assumes rk: "ranked prv r" and rt: "rooted prv source" and src: "\<not> is_inherited source"
  shows "prv (key_of c) \<noteq> None \<or> \<not> is_inherited (key_of c) \<Longrightarrow>
    \<exists>pre. reconstruct prv c acc = Some (map Some pre @ acc) \<and>
          (\<forall>e \<in> set pre. \<exists>w p. prv w = Some p \<and> prev_edge p = e)"
proof (induction "r (key_of c)" arbitrary: c acc rule: less_induct)
  case less
  show ?case
  proof (cases "prv (key_of c)")
    case None
    with less.prems have "reconstruct prv c acc = Some (map Some [] @ acc)"
      by (simp add: reconstruct_stop)
    then show ?thesis by fastforce
  next
    case (Some p)
    with rk have lt: "r (key_of (Some (prev_from p))) < r (key_of c)"
      by (simp add: ranked_def)
    from rt Some src have ok: "prv (key_of (Some (prev_from p))) \<noteq> None \<or>
        \<not> is_inherited (key_of (Some (prev_from p)))"
      by (auto simp: rooted_def)
    from less.hyps [OF lt ok, of "Some (prev_edge p) # acc"] obtain pre where
      rec: "reconstruct prv (Some (prev_from p)) (Some (prev_edge p) # acc) =
              Some (map Some pre @ Some (prev_edge p) # acc)"
      and eds: "\<forall>e \<in> set pre. \<exists>w p. prv w = Some p \<and> prev_edge p = e"
      by blast
    from rec Some have "reconstruct prv c acc = Some (map Some (pre @ [prev_edge p]) @ acc)"
      by (simp add: reconstruct_own)
    moreover from eds Some have
      "\<forall>e \<in> set (pre @ [prev_edge p]). \<exists>w p. prv w = Some p \<and> prev_edge p = e"
      by auto
    ultimately show ?thesis by blast
  qed
qed

text \<open>With a source that names no inherited property, every walk ends.\<close>

lemma reconstruct_terminates:
  assumes rk: "ranked prv r" and rt: "rooted prv source" and src: "\<not> is_inherited source"
  shows "\<exists>pth. reconstruct prv c acc = Some pth"
proof (cases "prv (key_of c) \<noteq> None \<or> \<not> is_inherited (key_of c)")
  case True
  from reconstruct_clean [OF rk rt src True, of acc] show ?thesis by blast
next
  case False
  then have "reconstruct prv c acc = reconstruct prv None (None # acc)"
    by (simp add: reconstruct_junk)
  moreover have "prv (key_of None) \<noteq> None \<or> \<not> is_inherited (key_of None)"
    by (simp add: undefined_not_inherited)
  from reconstruct_clean [OF rk rt src this, of "None # acc"]
  have "\<exists>pth. reconstruct prv None (None # acc) = Some pth" by blast
  ultimately show ?thesis by simp
qed

text \<open>Whenever a walk ends, the edges it has collected are edges of links.\<close>

lemma reconstruct_edges:
  assumes "reconstruct prv c acc = Some pth"
  shows "\<forall>e. Some e \<in> set pth \<longrightarrow>
    Some e \<in> set acc \<or> (\<exists>w p. prv w = Some p \<and> prev_edge p = e)"
proof (rule reconstruct.raw_induct
    [where P = "\<lambda>prv c acc pth. \<forall>e. Some e \<in> set pth \<longrightarrow>
        Some e \<in> set acc \<or> (\<exists>w p. prv w = Some p \<and> prev_edge p = e)", OF _ assms])
  fix rec and prv :: "string \<rightharpoonup> prev" and c acc pth
  assume IH: "\<And>prv c acc pth. rec prv c acc = Some pth \<Longrightarrow>
      \<forall>e. Some e \<in> set pth \<longrightarrow>
        Some e \<in> set acc \<or> (\<exists>w p. prv w = Some p \<and> prev_edge p = e)"
    and step: "(case prv (key_of c) of
         None \<Rightarrow> if is_inherited (key_of c) then rec prv None (None # acc) else Some acc
       | Some p \<Rightarrow> rec prv (Some (prev_from p)) (Some (prev_edge p) # acc)) = Some pth"
  show "\<forall>e. Some e \<in> set pth \<longrightarrow>
      Some e \<in> set acc \<or> (\<exists>w p. prv w = Some p \<and> prev_edge p = e)"
  proof (cases "prv (key_of c)")
    case None
    show ?thesis
    proof (cases "is_inherited (key_of c)")
      case True
      with None step have "rec prv None (None # acc) = Some pth" by simp
      from IH [OF this] show ?thesis by auto
    next
      case False
      with None step have "pth = acc" by simp
      then show ?thesis by simp
    qed
  next
    case (Some p)
    with step have "rec prv (Some (prev_from p)) (Some (prev_edge p) # acc) = Some pth"
      by simp
    from IH [OF this] Some show ?thesis by auto
  qed
qed

text \<open>
  Walking back from a node whose cost is a number below \<open>Infinity\<close>: the costs of the
  collected edges, added up from 0 in the order of the path, give the cost of the
  node.
\<close>

lemma sum_costs_snoc: "sum_costs (es @ [e]) = js_add (sum_costs es) (calculateEdgeCost e)"
  by (simp add: sum_costs_def)

lemma reconstruct_cost:
  assumes rk: "ranked (previous s) r" and ini: "inv_init (init_costs ns source) s"
    and prv: "inv_prev g s"
    and gc: "graph_ok (\<lambda>k nb. nb_cost nb = calculateEdgeCost (nb_edge nb)) g"
    and src: "\<not> is_inherited source"
  shows "costs s v = Some a \<Longrightarrow> num_lt a Infinity \<Longrightarrow>
    \<exists>pre. reconstruct (previous s) (Some v) acc = Some (map Some pre @ acc) \<and>
          a = sum_costs pre"
proof (induction "r v" arbitrary: v a acc rule: less_induct)
  case less
  show ?case
  proof (cases "previous s v")
    case None
    with ini have "costs s v = init_costs ns source v" by (simp add: inv_init_def)
    with less.prems have vs: "v = source" "a = Num 0"
      using init_costs_below [of ns source v a] by simp_all
    with None src have "reconstruct (previous s) (Some v) acc = Some (map Some [] @ acc)"
      by (simp add: reconstruct_stop)
    moreover have "a = sum_costs []" using vs by (simp add: sum_costs_def)
    ultimately show ?thesis by blast
  next
    case (Some p)
    with rk have lt: "r (prev_from p) < r v" by (simp add: ranked_def)
    from prv Some obtain nbs nb b where g: "g (prev_from p) = Some nbs" "nb \<in> set nbs"
      and nb: "nb_edge nb = prev_edge p"
      and cf: "costs s (prev_from p) = Some b" and bl: "num_lt b Infinity"
      and cv: "costs s v = Some (js_add b (nb_cost nb))"
      unfolding inv_prev_def by blast
    from gc g nb have nbc: "nb_cost nb = calculateEdgeCost (prev_edge p)"
      by (auto simp: graph_ok_def)
    from less.hyps [OF lt cf bl, of "Some (prev_edge p) # acc"] obtain pre where
      rec: "reconstruct (previous s) (Some (prev_from p)) (Some (prev_edge p) # acc) =
              Some (map Some pre @ Some (prev_edge p) # acc)"
      and sm: "b = sum_costs pre"
      by blast
    from rec Some have "reconstruct (previous s) (Some v) acc =
        Some (map Some (pre @ [prev_edge p]) @ acc)"
      by (simp add: reconstruct_own)
    moreover from sm nbc cv less.prems(1)
    have "a = sum_costs (pre @ [prev_edge p])"
      by (simp add: sum_costs_snoc)
    ultimately show ?thesis by blast
  qed
qed

text \<open>Two nodes joined by a link and an inherited name: the walk goes round for ever.\<close>

lemma reconstruct_cycle:
  assumes u: "prv0 ''undefined'' = Some p0" and p: "prev_from p0 = k"
    and k: "prv0 k = None" "is_inherited k"
    and c: "key_of c0 = ''undefined'' \<or> key_of c0 = k"
  shows "reconstruct prv0 c0 acc0 = None"
proof (cases "reconstruct prv0 c0 acc0")
  case None
  then show ?thesis .
next
  case (Some pth0)
  have kn: "k \<noteq> ''undefined''" using k(2) undefined_not_inherited by auto
  have "prv0 = prv0 \<longrightarrow> key_of c0 \<noteq> ''undefined'' \<and> key_of c0 \<noteq> k"
  proof (rule reconstruct.raw_induct
      [where P = "\<lambda>prv c acc pth. prv = prv0 \<longrightarrow> key_of c \<noteq> ''undefined'' \<and> key_of c \<noteq> k",
       OF _ Some])
    fix rec and prv :: "string \<rightharpoonup> prev" and c acc pth
    assume IH: "\<And>prv c acc pth. rec prv c acc = Some pth \<Longrightarrow>
        prv = prv0 \<longrightarrow> key_of c \<noteq> ''undefined'' \<and> key_of c \<noteq> k"
      and step: "(case prv (key_of c) of
           None \<Rightarrow> if is_inherited (key_of c) then rec prv None (None # acc) else Some acc
         | Some p \<Rightarrow> rec prv (Some (prev_from p)) (Some (prev_edge p) # acc)) = Some pth"
    show "prv = prv0 \<longrightarrow> key_of c \<noteq> ''undefined'' \<and> key_of c \<noteq> k"
    proof (intro impI conjI notI)
      assume "prv = prv0" "key_of c = ''undefined''"
      with step u p have "rec prv0 (Some k) (Some (prev_edge p0) # acc) = Some pth"
        by simp
      from IH [OF this] show False by simp
    next
      assume "prv = prv0" "key_of c = k"
      with step k have "rec prv0 None (None # acc) = Some pth"
        by simp
      from IH [OF this] show False by simp
    qed
  qed
  with c show ?thesis by simp
qed

section \<open>The query: lemmas\<close>

text \<open>What a query that returns a result went through.\<close>

lemma dijkstra_Inr:
  assumes "dijkstra ns es source destination tf mc = Some (Inr rt)"
  shows "\<exists>g s. build_graph ns es tf mc = Inr g \<and>
           main_loop g destination (init_state ns source) = Inr s \<and>
           search_inv g (init_costs ns source) s \<and>
           reconstruct (previous s) (Some destination) [] = Some (path rt) \<and>
           cost rt = get_cost (costs s) destination"
proof -
  from assms obtain g where g: "build_graph ns es tf mc = Inr g"
    by (auto simp: dijkstra_def split: sum.splits)
  then have "dom g = node_ids ns" by (rule build_graph_dom)
  then have "search_inv g (init_costs ns source) (init_state ns source)"
    by (rule init_search_inv)
  from main_loop_inv [OF this, of destination] obtain s where
    s: "main_loop g destination (init_state ns source) = Inr s"
    and inv: "search_inv g (init_costs ns source) s"
    by blast
  from assms g s have "reconstruct (previous s) (Some destination) [] = Some (path rt) \<and>
      cost rt = get_cost (costs s) destination"
    by (auto simp: dijkstra_def split: option.splits)
  with g s inv show ?thesis by blast
qed

text \<open>A query whose graph construction succeeds runs the main loop to its end.\<close>

lemma dijkstra_build_ok:
  assumes g: "build_graph ns es tf mc = Inr g"
  shows "\<exists>s. main_loop g destination (init_state ns source) = Inr s \<and>
           search_inv g (init_costs ns source) s \<and>
           dijkstra ns es source destination tf mc =
             (case reconstruct (previous s) (Some destination) [] of
                None \<Rightarrow> None
              | Some pth \<Rightarrow>
                  Some (Inr \<lparr>path = pth, cost = get_cost (costs s) destination\<rparr>))"
proof -
  from g have "dom g = node_ids ns" by (rule build_graph_dom)
  then have "search_inv g (init_costs ns source) (init_state ns source)"
    by (rule init_search_inv)
  from main_loop_inv [OF this, of destination] obtain s where
    s: "main_loop g destination (init_state ns source) = Inr s"
    and inv: "search_inv g (init_costs ns source) s"
    by blast
  from g s have "dijkstra ns es source destination tf mc =
             (case reconstruct (previous s) (Some destination) [] of
                None \<Rightarrow> None
              | Some pth \<Rightarrow>
                  Some (Inr \<lparr>path = pth, cost = get_cost (costs s) destination\<rparr>))"
    by (simp add: dijkstra_def)
  with s inv show ?thesis by blast
qed

text \<open>With a source that names no inherited property, such a query returns a result.\<close>

lemma dijkstra_returns:
  assumes g: "build_graph ns es tf mc = Inr g" and src: "\<not> is_inherited source"
  shows "\<exists>s pth. main_loop g destination (init_state ns source) = Inr s \<and>
           search_inv g (init_costs ns source) s \<and>
           reconstruct (previous s) (Some destination) [] = Some pth \<and>
           dijkstra ns es source destination tf mc =
             Some (Inr \<lparr>path = pth, cost = get_cost (costs s) destination\<rparr>)"
proof -
  from dijkstra_build_ok [OF g, of destination source] obtain s where
    s: "main_loop g destination (init_state ns source) = Inr s"
    and inv: "search_inv g (init_costs ns source) s"
    and d: "dijkstra ns es source destination tf mc =
             (case reconstruct (previous s) (Some destination) [] of
                None \<Rightarrow> None
              | Some pth \<Rightarrow>
                  Some (Inr \<lparr>path = pth, cost = get_cost (costs s) destination\<rparr>))"
    by blast
  from inv obtain r where rk: "ranked (previous s) r"
    by (auto simp: search_inv_def inv_rank_def)
  from inv have rt: "rooted (previous s) source" by (rule search_inv_rooted)
  from reconstruct_terminates [OF rk rt src, of "Some destination" "[]"] obtain pth where
    pth: "reconstruct (previous s) (Some destination) [] = Some pth"
    by auto
  with d have "dijkstra ns es source destination tf mc =
      Some (Inr \<lparr>path = pth, cost = get_cost (costs s) destination\<rparr>)"
    by simp
  with s inv pth show ?thesis by blast
qed

lemma dijkstra_cong:
  assumes "\<And>e. e \<in> set es \<Longrightarrow> admissible tf mc e = admissible tf' mc' e"
  shows "dijkstra ns es source destination tf mc = dijkstra ns es source destination tf' mc'"
  using add_edges_cong [of es tf mc tf' mc' "init_graph ns"] assms
  by (simp add: dijkstra_def build_graph_def)

section \<open>Evaluating the example\<close>

lemmas example_defs = nodes_def edges_def mk_edge_def mk_node_def

lemmas search_defs = dijkstra_def build_graph_def init_graph_def add_edge_def
  push_neighbor_def admissible_def calculateEdgeCost_def init_state_def init_costs_def
  new_Set_def set_add_def main_loop.simps visit_def select_min_def select_step_def js_lt_def
  relax_def relax_step_def reconstruct.simps terrainFilter_def get_cost_def set_cost_def
  is_inherited_def key_of_def Let_def

lemma example_unfiltered:
  "dijkstra nodes edges ''A'' ''F'' (\<lambda>e. True) Infinity =
     Some (Inr \<lparr>path = [Some (mk_edge ''A'' ''C'' 7 2 65 35),
                        Some (mk_edge ''C'' ''E'' 4 2 55 25),
                        Some (mk_edge ''E'' ''F'' 5 2 75 40)],
                cost = Number (Num 1595)\<rparr>)"
  by (simp add: example_defs search_defs)

lemma example_costs_le_750:
  "e \<in> set edges \<Longrightarrow> \<exists>c. calculateEdgeCost e = Num c \<and> c \<le> 750"
  by (auto simp: example_defs calculateEdgeCost_def)

lemma num_le_trans_Num: "a \<le> b \<Longrightarrow> num_le (Num b) m \<Longrightarrow> num_le (Num a) m"
  by (cases m) auto

lemma well_formed_example: "well_formed nodes edges"
  by (simp add: well_formed_def node_ids_def example_defs)

section \<open>Results of a query: lemmas\<close>

text \<open>Every edge of a returned path is the edge of an adjacency entry that leads from
  one node to a different one.\<close>

lemma path_edge_entry:
  assumes res: "dijkstra ns es source destination tf mc = Some (Inr rt)"
    and e: "Some e \<in> set (path rt)"
  shows "\<exists>k nb. entry_ok tf mc es k nb \<and> nb_edge nb = e \<and> nb_node nb \<noteq> k"
proof -
  from dijkstra_Inr [OF res] obtain g s where g: "build_graph ns es tf mc = Inr g"
    and inv: "search_inv g (init_costs ns source) s"
    and rec: "reconstruct (previous s) (Some destination) [] = Some (path rt)"
    by blast
  from inv have prv: "inv_prev g s" by (simp add: search_inv_def)
  from reconstruct_edges [OF rec] e
  obtain w p where wp: "previous s w = Some p" and pe: "prev_edge p = e"
    by auto
  from prv wp obtain nbs nb where "w \<noteq> prev_from p" "g (prev_from p) = Some nbs"
    "nb \<in> set nbs" "nb_node nb = w" "nb_edge nb = prev_edge p"
    unfolding inv_prev_def by blast
  moreover from g have "graph_ok (entry_ok tf mc es) g" by (rule build_graph_ok)
  ultimately have "entry_ok tf mc es (prev_from p) nb \<and> nb_edge nb = e \<and>
      nb_node nb \<noteq> prev_from p"
    using pe by (auto simp: graph_ok_def)
  then show ?thesis by blast
qed


text \<open>
  The returned cost and the returned path, for a source and a destination that name
  no inherited property: a cost below \<open>Infinity\<close> is the sum of the costs along the
  path; any other cost comes with the empty path, and is \<open>Infinity\<close> for a
  destination that is a node and \<open>undefined\<close> for one that is not.
\<close>

lemma path_cost_cases:
  assumes res: "dijkstra ns es source destination tf mc = Some (Inr rt)"
    and src: "\<not> is_inherited source" and dst: "\<not> is_inherited destination"
  shows "(\<exists>pre a. path rt = map Some pre \<and> cost rt = Number a \<and> num_lt a Infinity \<and>
            a = sum_costs pre) \<or>
    (path rt = [] \<and> \<not> num_lt (to_number (cost rt)) Infinity \<and>
     cost rt = (if destination \<in> node_ids ns then Number Infinity else Undefined))"
proof -
  from dijkstra_Inr [OF res] obtain g s where g: "build_graph ns es tf mc = Inr g"
    and inv: "search_inv g (init_costs ns source) s"
    and rec: "reconstruct (previous s) (Some destination) [] = Some (path rt)"
    and c: "cost rt = get_cost (costs s) destination"
    by blast
  from inv obtain r where rk: "ranked (previous s) r" and prv: "inv_prev g s"
    and ini: "inv_init (init_costs ns source) s"
    by (auto simp: search_inv_def inv_rank_def)
  from g have "graph_ok (entry_ok tf mc es) g" by (rule build_graph_ok)
  then have gc: "graph_ok (\<lambda>k nb. nb_cost nb = calculateEdgeCost (nb_edge nb)) g"
    by (simp add: graph_ok_def entry_ok_def)
  show ?thesis
  proof (cases "\<exists>a. costs s destination = Some a \<and> num_lt a Infinity")
    case True
    then obtain a where a: "costs s destination = Some a" "num_lt a Infinity" by blast
    from reconstruct_cost [OF rk ini prv gc src a, where acc = "[]"] rec
    obtain pre where "path rt = map Some pre" "a = sum_costs pre" by auto
    moreover from a c have "cost rt = Number a" by (simp add: get_cost_def)
    ultimately show ?thesis using a(2) by blast
  next
    case False
    have none: "previous s destination = None"
    proof (cases "previous s destination")
      case None
      then show ?thesis .
    next
      case (Some p)
      with prv obtain b where "costs s destination = Some b" "num_lt b Infinity"
        unfolding inv_prev_def by blast
      with False show ?thesis by blast
    qed
    with dst rec have pth: "path rt = []" by (simp add: reconstruct_stop)
    from none ini have cd: "costs s destination = init_costs ns source destination"
      by (simp add: inv_init_def)
    from dst have np: "destination \<noteq> ''__proto__''" by (auto simp: is_inherited_def)
    from False cd np have ns: "destination \<noteq> source"
      by (auto simp: init_costs_apply)
    from cd np ns dst c have "cost rt =
        (if destination \<in> node_ids ns then Number Infinity else Undefined)"
      by (simp add: get_cost_def init_costs_apply)
    with pth show ?thesis by auto
  qed
qed

text \<open>Only the source can be selected in the initial state.\<close>

lemma select_init:
  "fst (select_min (init_costs ns source) unv) = Some k \<Longrightarrow> k = source \<and> source \<in> set unv"
  using select_min_Some [of "init_costs ns source" unv k] init_costs_below [of ns source k]
  by auto

text \<open>When the loop stops at its first test, the result is read off the initial state.\<close>

lemma dijkstra_stop_at_once:
  assumes g: "build_graph ns es tf mc = Inr g"
    and stop: "main_loop g destination (init_state ns source) = Inr (init_state ns source)"
    and dst: "\<not> is_inherited destination"
  shows "dijkstra ns es source destination tf mc =
    Some (Inr \<lparr>path = [], cost = get_cost (init_costs ns source) destination\<rparr>)"
proof -
  have "reconstruct Map.empty (Some destination) [] = Some []"
    using dst by (simp add: reconstruct_stop)
  with g stop show ?thesis by (simp add: dijkstra_def init_state_def)
qed

lemma get_init_cost:
  "\<not> is_inherited k \<Longrightarrow>
   get_cost (init_costs ns source) k =
     (if k = source then Number (Num 0)
      else if k \<in> node_ids ns then Number Infinity else Undefined)"
  by (auto simp: get_cost_def init_costs_apply is_inherited_def)

lemma dijkstra_same_node:
  assumes "well_formed ns es" and v: "\<not> is_inherited v"
  shows "dijkstra ns es v v tf mc = Some (Inr \<lparr>path = [], cost = Number (Num 0)\<rparr>)"
proof -
  from build_graph_well_formed [OF assms(1)] obtain g where
    g: "build_graph ns es tf mc = Inr g"
    by blast
  let ?s = "init_state ns v"
  have "fst (select_min (costs ?s) (unvisited ?s)) = None \<or>
      fst (select_min (costs ?s) (unvisited ?s)) = Some v"
    using select_init [of ns v "unvisited ?s"]
    by (cases "fst (select_min (costs ?s) (unvisited ?s))") (auto simp: init_state_def)
  then have "main_loop g v ?s = Inr ?s" by (auto intro: main_loop_stop)
  from dijkstra_stop_at_once [OF g this v] v show ?thesis by (simp add: get_init_cost)
qed

lemma dijkstra_absent_source:
  assumes wf: "well_formed ns es" and src: "source \<notin> node_ids ns"
    and dst: "\<not> is_inherited destination"
  shows "dijkstra ns es source destination tf mc =
    Some (Inr \<lparr>path = [], cost = get_cost (init_costs ns source) destination\<rparr>)"
proof -
  from build_graph_well_formed [OF wf] obtain g where g: "build_graph ns es tf mc = Inr g"
    by blast
  let ?s = "init_state ns source"
  have "fst (select_min (costs ?s) (unvisited ?s)) = None"
    using select_init [of ns source "unvisited ?s"] src
    by (cases "fst (select_min (costs ?s) (unvisited ?s))")
       (auto simp: init_state_def set_new_Set node_ids_def)
  then have "main_loop g destination ?s = Inr ?s" by (auto intro: main_loop_stop)
  with g show ?thesis using dst by (rule dijkstra_stop_at_once)
qed

lemma dijkstra_absent_destination:
  assumes wf: "well_formed ns es" and dst: "destination \<notin> node_ids ns"
    and ninh: "\<not> is_inherited destination"
  shows "dijkstra ns es source destination tf mc =
    Some (Inr \<lparr>path = [], cost = get_cost (init_costs ns source) destination\<rparr>)"
proof -
  from build_graph_well_formed [OF wf] obtain g where g: "build_graph ns es tf mc = Inr g"
    by blast
  from dijkstra_build_ok [OF g, of destination source] obtain s where
    inv: "search_inv g (init_costs ns source) s"
    and res: "dijkstra ns es source destination tf mc =
             (case reconstruct (previous s) (Some destination) [] of
                None \<Rightarrow> None
              | Some pth \<Rightarrow>
                  Some (Inr \<lparr>path = pth, cost = get_cost (costs s) destination\<rparr>))"
    by blast
  from g have "dom g = node_ids ns" by (rule build_graph_dom)
  with inv dst have none: "previous s destination = None"
    by (cases "previous s destination") (auto simp: search_inv_def inv_prev_def)
  with ninh have rec: "reconstruct (previous s) (Some destination) [] = Some []"
    by (simp add: reconstruct_stop)
  from inv none have "costs s destination = init_costs ns source destination"
    by (simp add: search_inv_def inv_init_def)
  then have "get_cost (costs s) destination = get_cost (init_costs ns source) destination"
    by (simp add: get_cost_def)
  with rec res show ?thesis by simp
qed

lemma length_removeAll_less: "k \<in> set xs \<Longrightarrow> length (removeAll k xs) < length xs"
  by (induction xs) (auto simp: less_Suc_eq_le)

text \<open>Multiplication and addition of non-negative numbers.\<close>

lemma fl_nonneg_le: "0 \<le> x \<Longrightarrow> num_le (Num 0) (fl x)"
  using fl_nonneg [of x] by auto

lemma js_add_nonneg:
  "num_le (Num 0) a \<Longrightarrow> num_le (Num 0) b \<Longrightarrow> num_le (Num 0) (js_add a b)"
  by (cases a; cases b) (auto simp: fl_nonneg_le)

lemma js_mul_nonneg:
  "num_le (Num 0) a \<Longrightarrow> num_le (Num 0) b \<Longrightarrow>
   num_le (Num 0) (js_mul a b) \<or>
   (js_mul a b = NaN \<and> ((a = Num 0 \<and> b = Infinity) \<or> (a = Infinity \<and> b = Num 0)))"
  by (cases a; cases b) (auto simp: fl_nonneg_le)

section \<open>Self-loops: lemmas\<close>

lemma drop_loops_init: "drop_loops (init_graph ns) = init_graph ns"
  by (rule ext) (simp add: drop_loops_def init_graph_apply)

lemma drop_loops_upd:
  "drop_loops (g(k \<mapsto> l)) = (drop_loops g)(k \<mapsto> filter (\<lambda>nb. nb_node nb \<noteq> k) l)"
  by (rule ext) (simp add: drop_loops_def)

lemma push_loop:
  assumes "push_neighbor g k nb = Inr g'" "nb_node nb = k"
  shows "drop_loops g' = drop_loops g"
proof -
  from assms(1) obtain l where l: "g k = Some l" and g': "g' = g(k \<mapsto> l @ [nb])"
    by (auto simp: push_neighbor_Inr)
  from l have "(drop_loops g)(k \<mapsto> filter (\<lambda>nb. nb_node nb \<noteq> k) l) = drop_loops g"
    by (intro ext) (simp add: drop_loops_def)
  with g' assms(2) show ?thesis by (simp add: drop_loops_upd)
qed

lemma push_no_loop:
  assumes "push_neighbor g k nb = Inr g'" "nb_node nb \<noteq> k"
  shows "push_neighbor (drop_loops g) k nb = Inr (drop_loops g')"
proof -
  from assms(1) obtain l where l: "g k = Some l" and g': "g' = g(k \<mapsto> l @ [nb])"
    by (auto simp: push_neighbor_Inr)
  from l have "drop_loops g k = Some (filter (\<lambda>nb. nb_node nb \<noteq> k) l)"
    by (simp add: drop_loops_def)
  with g' assms(2) show ?thesis
    by (simp add: push_neighbor_Inr drop_loops_upd)
qed

lemma add_edge_loop:
  assumes "add_edge tf mc g e = Inr g'" "start e = end_node e"
  shows "drop_loops g' = drop_loops g"
proof (cases "admissible tf mc e")
  case False
  with assms show ?thesis by (simp add: add_edge_def)
next
  case True
  with assms(1) obtain g1 where
    g1: "push_neighbor g (start e)
           \<lparr>nb_node = end_node e, nb_cost = calculateEdgeCost e, nb_edge = e\<rparr> = Inr g1"
    and g': "push_neighbor g1 (end_node e)
           \<lparr>nb_node = start e, nb_cost = calculateEdgeCost e, nb_edge = e\<rparr> = Inr g'"
    by (auto simp: add_edge_def split: sum.splits)
  from push_loop [OF g1] push_loop [OF g'] assms(2) show ?thesis by simp
qed

lemma add_edge_no_loop:
  assumes "add_edge tf mc g e = Inr g'" "start e \<noteq> end_node e"
  shows "add_edge tf mc (drop_loops g) e = Inr (drop_loops g')"
proof (cases "admissible tf mc e")
  case False
  with assms show ?thesis by (auto simp: add_edge_def)
next
  case True
  with assms(1) obtain g1 where
    g1: "push_neighbor g (start e)
           \<lparr>nb_node = end_node e, nb_cost = calculateEdgeCost e, nb_edge = e\<rparr> = Inr g1"
    and g': "push_neighbor g1 (end_node e)
           \<lparr>nb_node = start e, nb_cost = calculateEdgeCost e, nb_edge = e\<rparr> = Inr g'"
    by (auto simp: add_edge_def split: sum.splits)
  from push_no_loop [OF g1] push_no_loop [OF g'] assms(2) True show ?thesis
    by (simp add: add_edge_def)
qed

lemma add_edges_drop_loops:
  "add_edges tf mc g es = Inr g' \<Longrightarrow>
   add_edges tf mc (drop_loops g) (filter (\<lambda>e. start e \<noteq> end_node e) es) = Inr (drop_loops g')"
proof (induction es arbitrary: g)
  case Nil
  then show ?case by simp
next
  case (Cons e es)
  from Cons.prems obtain g1 where g1: "add_edge tf mc g e = Inr g1"
    and rest: "add_edges tf mc g1 es = Inr g'"
    by (auto split: sum.splits)
  from Cons.IH [OF rest] add_edge_loop [OF g1] add_edge_no_loop [OF g1]
  show ?case by (cases "start e = end_node e") simp_all
qed

lemma build_graph_drop_loops:
  "build_graph ns es tf mc = Inr g \<Longrightarrow>
   build_graph ns (filter (\<lambda>e. start e \<noteq> end_node e) es) tf mc = Inr (drop_loops g)"
  using add_edges_drop_loops [of tf mc "init_graph ns" es g]
  by (simp add: build_graph_def drop_loops_init)

lemma relax_skip_current:
  "cur \<notin> set unv \<Longrightarrow>
   relax unv cur (filter (\<lambda>nb. nb_node nb \<noteq> cur) nbs) cp = relax unv cur nbs cp"
proof (induction nbs arbitrary: cp)
  case Nil
  show ?case by simp
next
  case (Cons nb nbs)
  show ?case
  proof (cases "nb_node nb = cur")
    case True
    with Cons.prems have "relax_step unv cur nb cp = cp" by (simp add: relax_step_def)
    with True Cons show ?thesis by (simp add: relax_Cons)
  next
    case False
    with Cons show ?thesis by (simp add: relax_Cons)
  qed
qed

lemma visit_skip_current:
  "visit s cur (filter (\<lambda>nb. nb_node nb \<noteq> cur) nbs) = visit s cur nbs"
  by (simp add: visit_def relax_skip_current)

lemma main_loop_error:
  "unvisited s \<noteq> [] \<Longrightarrow> fst (select_min (costs s) (unvisited s)) = Some cur \<Longrightarrow>
   cur \<noteq> d \<Longrightarrow> g cur = None \<Longrightarrow> main_loop g d s = Inl TypeError"
  by (subst main_loop.simps) simp

lemma main_loop_drop_loops: "main_loop (drop_loops g) d s = main_loop g d s"
proof (induction g d s rule: main_loop.induct)
  case (1 g d s)
  show ?case
  proof (cases "unvisited s = [] \<or> fst (select_min (costs s) (unvisited s)) = None \<or>
      fst (select_min (costs s) (unvisited s)) = Some d")
    case True
    then show ?thesis by (simp add: main_loop_stop)
  next
    case False
    then obtain cur where ne: "unvisited s \<noteq> []"
      and sel: "fst (select_min (costs s) (unvisited s)) = Some cur" and nd: "cur \<noteq> d"
      by auto
    show ?thesis
    proof (cases "g cur")
      case None
      then have "drop_loops g cur = None" by (simp add: drop_loops_def)
      with None ne sel nd show ?thesis by (simp add: main_loop_error)
    next
      case (Some nbs)
      then have dl: "drop_loops g cur = Some (filter (\<lambda>nb. nb_node nb \<noteq> cur) nbs)"
        by (simp add: drop_loops_def)
      have "main_loop (drop_loops g) d s =
          main_loop (drop_loops g) d (visit s cur (filter (\<lambda>nb. nb_node nb \<noteq> cur) nbs))"
        using ne sel nd dl by (rule main_loop_visit)
      also have "\<dots> = main_loop (drop_loops g) d (visit s cur nbs)"
        by (simp add: visit_skip_current)
      also have "\<dots> = main_loop g d (visit s cur nbs)"
        using ne sel nd Some by (rule "1.IH")
      also have "\<dots> = main_loop g d s"
        using ne sel nd Some by (rule main_loop_visit [symmetric])
      finally show ?thesis .
    qed
  qed
qed

lemma dijkstra_drop_loops:
  assumes "build_graph ns es tf mc = Inr g"
  shows "dijkstra ns (filter (\<lambda>e. start e \<noteq> end_node e) es) source destination tf mc =
    dijkstra ns es source destination tf mc"
  using assms build_graph_drop_loops [OF assms]
  by (simp add: dijkstra_def main_loop_drop_loops)

section \<open>Cost model: properties\<close>

text \<open>
  C4 (as stated, refuted). The claim is that the edge cost is non-negative whenever
  distance, material cost and labor cost are. With distance 0 and material and labor
  cost \<open>2^1023\<close> each, the sum overflows to \<open>Infinity\<close> and the product \<open>0 * Infinity\<close> is
  \<open>NaN\<close>, which is not \<open>>= 0\<close>.
\<close>

theorem calculateEdgeCost_counterexample:
  "calculateEdgeCost (mk_edge ''A'' ''B'' 0 1 (2 ^ 1023) (2 ^ 1023)) = NaN \<and>
   \<not> num_le (Num 0) (calculateEdgeCost (mk_edge ''A'' ''B'' 0 1 (2 ^ 1023) (2 ^ 1023))) \<and>
   num_le (Num 0) (distance (mk_edge ''A'' ''B'' 0 1 (2 ^ 1023) (2 ^ 1023))) \<and>
   num_le (Num 0) (materialCost (mk_edge ''A'' ''B'' 0 1 (2 ^ 1023) (2 ^ 1023))) \<and>
   num_le (Num 0) (laborCost (mk_edge ''A'' ''B'' 0 1 (2 ^ 1023) (2 ^ 1023)))"
proof -
  have "js_add (Num (2 ^ 1023)) (Num (2 ^ 1023)) = Infinity"
    by (simp only: js_add.simps fl_2_1024)
  then have "calculateEdgeCost (mk_edge ''A'' ''B'' 0 1 (2 ^ 1023) (2 ^ 1023)) = NaN"
    by (simp add: calculateEdgeCost_def mk_edge_def del: js_add.simps)
  then show ?thesis by (simp add: mk_edge_def)
qed

text \<open>
  C4 (amended). For every edge, the edge cost is distance times the sum of material
  cost and labor cost in double arithmetic: the sum is rounded, then the product.
  When the three attributes are integers and the sum and the product are below
  \<open>2^53\<close> in magnitude, it is the exact product. When the three attributes are
  non-negative, the cost is non-negative or \<open>NaN\<close>, and it is \<open>NaN\<close> only for distance
  0 with a sum that is \<open>Infinity\<close>, or distance \<open>Infinity\<close> with a sum that is 0.
\<close>

theorem calculateEdgeCost_spec:
  "calculateEdgeCost e = js_mul (distance e) (js_add (materialCost e) (laborCost e)) \<and>
   (distance e = Num (of_int d) \<and> materialCost e = Num (of_int m) \<and>
    laborCost e = Num (of_int l) \<and> \<bar>m + l\<bar> < 2 ^ 53 \<and> \<bar>d * (m + l)\<bar> < 2 ^ 53 \<longrightarrow>
      calculateEdgeCost e = Num (of_int (d * (m + l)))) \<and>
   (num_le (Num 0) (distance e) \<and> num_le (Num 0) (materialCost e) \<and>
    num_le (Num 0) (laborCost e) \<longrightarrow>
      num_le (Num 0) (calculateEdgeCost e) \<or>
      (calculateEdgeCost e = NaN \<and>
       ((distance e = Num 0 \<and> js_add (materialCost e) (laborCost e) = Infinity) \<or>
        (distance e = Infinity \<and> js_add (materialCost e) (laborCost e) = Num 0))))"
proof (intro conjI impI)
  show "calculateEdgeCost e = js_mul (distance e) (js_add (materialCost e) (laborCost e))"
    by (simp add: calculateEdgeCost_def)
next
  assume a: "distance e = Num (of_int d) \<and> materialCost e = Num (of_int m) \<and>
    laborCost e = Num (of_int l) \<and> \<bar>m + l\<bar> < 2 ^ 53 \<and> \<bar>d * (m + l)\<bar> < 2 ^ 53"
  then have "js_add (materialCost e) (laborCost e) = Num (of_int (m + l))"
    using fl_int [of "m + l"] by simp
  with a show "calculateEdgeCost e = Num (of_int (d * (m + l)))"
    using fl_int [of "d * (m + l)"] by (simp add: calculateEdgeCost_def)
next
  assume a: "num_le (Num 0) (distance e) \<and> num_le (Num 0) (materialCost e) \<and>
    num_le (Num 0) (laborCost e)"
  then have "num_le (Num 0) (js_add (materialCost e) (laborCost e))"
    by (simp add: js_add_nonneg)
  with a js_mul_nonneg [of "distance e" "js_add (materialCost e) (laborCost e)"]
  show "num_le (Num 0) (calculateEdgeCost e) \<or>
      (calculateEdgeCost e = NaN \<and>
       ((distance e = Num 0 \<and> js_add (materialCost e) (laborCost e) = Infinity) \<or>
        (distance e = Infinity \<and> js_add (materialCost e) (laborCost e) = Num 0)))"
    by (simp add: calculateEdgeCost_def)
qed

theorem calculateEdgeCost_spec_witness:
  "calculateEdgeCost (mk_edge ''A'' ''B'' 5 1 70 40) = Num 550 \<and>
   num_le (Num 0) (calculateEdgeCost (mk_edge ''A'' ''B'' 5 1 70 40))"
proof -
  let ?e = "mk_edge ''A'' ''B'' 5 1 70 40"
  have "distance ?e = Num (of_int 5) \<and> materialCost ?e = Num (of_int 70) \<and>
    laborCost ?e = Num (of_int 40) \<and> \<bar>70 + 40 :: int\<bar> < 2 ^ 53 \<and>
    \<bar>5 * (70 + 40) :: int\<bar> < 2 ^ 53"
    by (simp add: mk_edge_def)
  with calculateEdgeCost_spec [of ?e 5 70 40]
  have "calculateEdgeCost ?e = Num (of_int (5 * (70 + 40)))" by blast
  then show ?thesis by simp
qed

section \<open>The example query\<close>

text \<open>
  C1. On the six-node example graph, the query from A to F with the terrain filter
  disabled and a maximum edge cost of at least 750 returns the path A-C, C-E, E-F
  with total cost 1595.
\<close>

theorem example_shortest_path:
  assumes "num_le (Num 750) maxCost"
  shows "dijkstra nodes edges ''A'' ''F'' (terrainFilter False maxTerrain) maxCost =
     Some (Inr \<lparr>path = [Some (mk_edge ''A'' ''C'' 7 2 65 35),
                        Some (mk_edge ''C'' ''E'' 4 2 55 25),
                        Some (mk_edge ''E'' ''F'' 5 2 75 40)],
                cost = Number (Num 1595)\<rparr>)"
proof -
  have "admissible (terrainFilter False maxTerrain) maxCost e = admissible (\<lambda>e. True) Infinity e"
    if "e \<in> set edges" for e
  proof -
    from example_costs_le_750 [OF that] obtain c where
      c: "calculateEdgeCost e = Num c" "c \<le> 750"
      by blast
    with num_le_trans_Num [OF c(2) assms] show ?thesis
      by (simp add: admissible_def terrainFilter_def)
  qed
  then have "dijkstra nodes edges ''A'' ''F'' (terrainFilter False maxTerrain) maxCost =
      dijkstra nodes edges ''A'' ''F'' (\<lambda>e. True) Infinity"
    by (rule dijkstra_cong)
  then show ?thesis by (simp only: example_unfiltered)
qed

theorem example_shortest_path_witness:
  "num_le (Num 750) (Num 10000) \<and>
   dijkstra nodes edges ''A'' ''F'' (terrainFilter False (Num 3)) (Num 10000) =
     Some (Inr \<lparr>path = [Some (mk_edge ''A'' ''C'' 7 2 65 35),
                        Some (mk_edge ''C'' ''E'' 4 2 55 25),
                        Some (mk_edge ''E'' ''F'' 5 2 75 40)],
                cost = Number (Num 1595)\<rparr>)"
proof -
  have h: "num_le (Num 750) (Num 10000)" by simp
  from h example_shortest_path [OF h, of "Num 3"] show ?thesis by simp
qed

section \<open>Cost of the returned path\<close>

text \<open>
  C2 (as stated, refuted). The claim is that for every query the returned cost equals
  the sum of the edge costs of the returned path. On the example graph with a maximum
  edge cost of 400, the query from A to F returns the empty path, whose sum is 0,
  with the cost \<open>Infinity\<close>. And the sum the search returns is a sum of doubles: for
  a path of two edges of cost \<open>2^53\<close> and 1 it is \<open>2^53\<close>, not \<open>2^53 + 1\<close>.
\<close>

theorem cost_sum_counterexample:
  "dijkstra nodes edges ''A'' ''F'' (terrainFilter False (Num 3)) (Num 400) =
     Some (Inr \<lparr>path = [], cost = Number Infinity\<rparr>) \<and>
   Number Infinity \<noteq> Number (sum_costs []) \<and>
   dijkstra [mk_node ''A'' 0 0, mk_node ''B'' 0 0, mk_node ''C'' 0 0]
       [mk_edge ''A'' ''B'' 1 1 9007199254740992 0, mk_edge ''B'' ''C'' 1 1 1 0]
       ''A'' ''C'' (terrainFilter False (Num 3)) Infinity =
     Some (Inr \<lparr>path = [Some (mk_edge ''A'' ''B'' 1 1 9007199254740992 0),
                        Some (mk_edge ''B'' ''C'' 1 1 1 0)],
                cost = Number (Num 9007199254740992)\<rparr>) \<and>
   (9007199254740992 :: real) \<noteq> 1 * (9007199254740992 + 0) + 1 * (1 + 0)"
  by (simp add: example_defs search_defs sum_costs_def fl_2_53 fl_tie)

text \<open>
  C2 (amended). For every query that returns a result and whose source and
  destination name no property inherited from \<open>Object.prototype\<close>, one of two cases
  holds. Either the returned cost is a number below \<open>Infinity\<close>, the returned path
  consists of edges, and the cost equals the sum of the edge costs
  \<open>distance * (materialCost + laborCost)\<close> over the path, added up in double arithmetic
  from 0 in the order of the path. Or the returned path is empty and the cost is
  \<open>Infinity\<close> when the destination is a node, \<open>undefined\<close> when it is not.
\<close>

theorem cost_is_sum_of_path:
  assumes "dijkstra ns es source destination tf mc = Some (Inr rt)"
    and "\<not> is_inherited source" and "\<not> is_inherited destination"
  shows "(\<exists>pre a. path rt = map Some pre \<and> cost rt = Number a \<and> num_lt a Infinity \<and>
            a = foldl (\<lambda>acc e. js_add acc
                  (js_mul (distance e) (js_add (materialCost e) (laborCost e))))
                (Num 0) pre) \<or>
    (path rt = [] \<and> \<not> num_lt (to_number (cost rt)) Infinity \<and>
     cost rt = (if destination \<in> node_ids ns then Number Infinity else Undefined))"
  using path_cost_cases [OF assms]
  by (simp add: sum_costs_def calculateEdgeCost_def [abs_def])

theorem cost_is_sum_of_path_witness:
  "dijkstra nodes edges ''A'' ''F'' (terrainFilter False (Num 3)) (Num 10000) =
     Some (Inr \<lparr>path = [Some (mk_edge ''A'' ''C'' 7 2 65 35),
                        Some (mk_edge ''C'' ''E'' 4 2 55 25),
                        Some (mk_edge ''E'' ''F'' 5 2 75 40)],
                cost = Number (Num 1595)\<rparr>) \<and>
   \<not> is_inherited ''A'' \<and> \<not> is_inherited ''F'' \<and>
   Num 1595 = foldl (\<lambda>acc e. js_add acc
                  (js_mul (distance e) (js_add (materialCost e) (laborCost e))))
                (Num 0)
                [mk_edge ''A'' ''C'' 7 2 65 35, mk_edge ''C'' ''E'' 4 2 55 25,
                 mk_edge ''E'' ''F'' 5 2 75 40]"
proof -
  let ?es = "[mk_edge ''A'' ''C'' 7 2 65 35, mk_edge ''C'' ''E'' 4 2 55 25,
              mk_edge ''E'' ''F'' 5 2 75 40]"
  let ?rt = "\<lparr>path = map Some ?es, cost = Number (Num 1595)\<rparr>"
  have h: "dijkstra nodes edges ''A'' ''F'' (terrainFilter False (Num 3)) (Num 10000) =
      Some (Inr ?rt)"
    by (simp add: example_defs search_defs)
  have a: "\<not> is_inherited ''A''" and f: "\<not> is_inherited ''F''"
    by (simp_all add: is_inherited_def)
  have e: "Num 1595 = foldl (\<lambda>acc e. js_add acc
                  (js_mul (distance e) (js_add (materialCost e) (laborCost e))))
                (Num 0) ?es"
    by (simp add: mk_edge_def)
  from cost_is_sum_of_path [OF h a f] h a f e show ?thesis by simp
qed

section \<open>The filter\<close>



section \<open>Same source and destination\<close>

text \<open>
  C5 (as stated, refuted). The claim is that for every graph and filter a query with
  source equal to destination returns the empty path with cost zero and does not
  raise. On the example graph, the identifier \<open>constructor\<close> as source and destination
  gives a path of one element, \<open>undefined\<close>: the walk reads the inherited property as
  a predecessor link. And with an admissible edge from A to Z, which is no node, the
  query from A to A raises in graph construction.
\<close>

theorem same_node_counterexample:
  "dijkstra nodes edges ''constructor'' ''constructor''
       (terrainFilter False (Num 3)) (Num 10000) =
     Some (Inr \<lparr>path = [None], cost = Number (Num 0)\<rparr>) \<and>
   dijkstra nodes [mk_edge ''A'' ''Z'' 1 1 1 1] ''A'' ''A''
       (terrainFilter False (Num 3)) (Num 10000) =
     Some (Inl TypeError)"
  by (simp add: example_defs search_defs)

text \<open>
  C5 (amended). For every graph whose edges refer to existing nodes, every filter,
  and every identifier that names no property inherited from \<open>Object.prototype\<close>: a
  query with that identifier as source and as destination returns, without raising,
  the empty path with cost zero.
\<close>

theorem same_node_zero_cost:
  "well_formed ns es \<Longrightarrow> \<not> is_inherited v \<Longrightarrow>
   dijkstra ns es v v tf mc = Some (Inr \<lparr>path = [], cost = Number (Num 0)\<rparr>)"
  by (rule dijkstra_same_node)

theorem same_node_zero_cost_witness:
  "well_formed nodes edges \<and> \<not> is_inherited ''C'' \<and>
   dijkstra nodes edges ''C'' ''C'' (terrainFilter True (Num 2)) (Num 500) =
     Some (Inr \<lparr>path = [], cost = Number (Num 0)\<rparr>)"
proof -
  have c: "\<not> is_inherited ''C''" by (simp add: is_inherited_def)
  from well_formed_example c
    same_node_zero_cost [OF well_formed_example c, of "terrainFilter True (Num 2)" "Num 500"]
  show ?thesis by simp
qed

section \<open>Identifiers that are not nodes\<close>

text \<open>
  C6 (as stated, refuted). The claim is that a query with an identifier that is not a
  node returns the unreachable result, distinguishable from the zero-cost result of
  the same-node case. With the identifier Z, which is not a node of the example, as
  both source and destination, the query returns the empty path with cost zero: the
  very result of a same-node query on a node. And with the destination \<open>toString\<close>,
  which is not a node either, the path holds \<open>undefined\<close> and the cost is the
  inherited function.
\<close>

theorem absent_endpoint_counterexample:
  "''Z'' \<notin> node_ids nodes \<and>
   dijkstra nodes edges ''Z'' ''Z'' (terrainFilter False (Num 3)) (Num 10000) =
     Some (Inr \<lparr>path = [], cost = Number (Num 0)\<rparr>) \<and>
   dijkstra nodes edges ''Z'' ''Z'' (terrainFilter False (Num 3)) (Num 10000) =
     dijkstra nodes edges ''A'' ''A'' (terrainFilter False (Num 3)) (Num 10000) \<and>
   ''toString'' \<notin> node_ids nodes \<and>
   dijkstra nodes edges ''A'' ''toString'' (terrainFilter False (Num 3)) (Num 10000) =
     Some (Inr \<lparr>path = [None], cost = Inherited ''toString''\<rparr>)"
  by (simp add: node_ids_def example_defs search_defs)

text \<open>
  C6 (amended). For every graph whose edges refer to existing nodes and every filter,
  a query with a source or a destination that is not a node, and with a destination
  that names no property inherited from \<open>Object.prototype\<close>, raises no error and
  returns the empty path; its cost is zero when source and destination are the same
  identifier, \<open>Infinity\<close> when the destination is a node (and the source is not), and
  \<open>undefined\<close> when the destination is not a node and differs from the source.
\<close>

theorem absent_endpoint_result:
  assumes "well_formed ns es"
    and "source \<notin> node_ids ns \<or> destination \<notin> node_ids ns"
    and "\<not> is_inherited destination"
  shows "dijkstra ns es source destination tf mc =
    Some (Inr \<lparr>path = [],
               cost = (if destination = source then Number (Num 0)
                       else if destination \<in> node_ids ns then Number Infinity
                       else Undefined)\<rparr>)"
proof -
  have "dijkstra ns es source destination tf mc =
      Some (Inr \<lparr>path = [], cost = get_cost (init_costs ns source) destination\<rparr>)"
    using assms dijkstra_absent_source [of ns es source destination tf mc]
      dijkstra_absent_destination [of ns es destination source tf mc]
    by blast
  with assms(3) show ?thesis by (simp add: get_init_cost)
qed

theorem absent_endpoint_result_witness:
  "well_formed nodes edges \<and> ''Z'' \<notin> node_ids nodes \<and> ''F'' \<in> node_ids nodes \<and>
   \<not> is_inherited ''F'' \<and> \<not> is_inherited ''Z'' \<and>
   dijkstra nodes edges ''Z'' ''F'' (terrainFilter False (Num 3)) (Num 10000) =
     Some (Inr \<lparr>path = [], cost = Number Infinity\<rparr>) \<and>
   dijkstra nodes edges ''A'' ''Z'' (terrainFilter False (Num 3)) (Num 10000) =
     Some (Inr \<lparr>path = [], cost = Undefined\<rparr>)"
proof -
  have z: "''Z'' \<notin> node_ids nodes" and f: "''F'' \<in> node_ids nodes"
    by (simp_all add: node_ids_def example_defs)
  have iz: "\<not> is_inherited ''Z''" and "if": "\<not> is_inherited ''F''"
    by (simp_all add: is_inherited_def)
  from z have 1: "''Z'' \<notin> node_ids nodes \<or> ''F'' \<notin> node_ids nodes" by simp
  from z have 2: "''A'' \<notin> node_ids nodes \<or> ''Z'' \<notin> node_ids nodes" by simp
  from absent_endpoint_result
      [OF well_formed_example 1 "if", of "terrainFilter False (Num 3)" "Num 10000"]
    absent_endpoint_result
      [OF well_formed_example 2 iz, of "terrainFilter False (Num 3)" "Num 10000"]
    well_formed_example z f iz "if"
  show ?thesis by simp
qed

section \<open>A maximum edge cost of 400 on the example\<close>

text \<open>
  C7 (as stated, refuted). The claim lists A-B (550), C-D (420) and C-E (320) as the
  edges admitted under a maximum edge cost of 400. The test is
  \<open>cost(edge) <= maxCost\<close>, so A-B and C-D are not admitted.
\<close>

theorem maxCost_400_counterexample:
  "set (filter (admissible (terrainFilter False (Num 3)) (Num 400)) edges) \<noteq>
     {mk_edge ''A'' ''B'' 5 1 70 40, mk_edge ''C'' ''D'' 3 3 90 50,
      mk_edge ''C'' ''E'' 4 2 55 25} \<and>
   \<not> admissible (terrainFilter False (Num 3)) (Num 400) (mk_edge ''A'' ''B'' 5 1 70 40) \<and>
   \<not> admissible (terrainFilter False (Num 3)) (Num 400) (mk_edge ''C'' ''D'' 3 3 90 50)"
  by (simp add: example_defs admissible_def terrainFilter_def calculateEdgeCost_def)

text \<open>
  C7 (amended). On the example graph with a maximum edge cost of 400 and the terrain
  filter disabled, C-E (320) is the only admissible edge; A has no neighbour in the
  filtered graph, so A and F are not connected in it; and the query from A to F
  returns the unreachable result: the empty path with cost \<open>Infinity\<close>.
\<close>

theorem maxCost_400_unreachable:
  "filter (admissible (terrainFilter False maxTerrain) (Num 400)) edges =
     [mk_edge ''C'' ''E'' 4 2 55 25] \<and>
   (\<exists>g. build_graph nodes edges (terrainFilter False maxTerrain) (Num 400) = Inr g \<and>
        g ''A'' = Some [] \<and> \<not> connected g ''A'' ''F'') \<and>
   dijkstra nodes edges ''A'' ''F'' (terrainFilter False maxTerrain) (Num 400) =
     Some (Inr \<lparr>path = [], cost = Number Infinity\<rparr>)"
proof (intro conjI)
  show "filter (admissible (terrainFilter False maxTerrain) (Num 400)) edges =
     [mk_edge ''C'' ''E'' 4 2 55 25]"
    by (simp add: example_defs admissible_def terrainFilter_def calculateEdgeCost_def)
  show "dijkstra nodes edges ''A'' ''F'' (terrainFilter False maxTerrain) (Num 400) =
     Some (Inr \<lparr>path = [], cost = Number Infinity\<rparr>)"
    by (simp add: example_defs search_defs)
  have "\<exists>g. build_graph nodes edges (terrainFilter False maxTerrain) (Num 400) = Inr g \<and>
        g ''A'' = Some []"
    by (simp add: example_defs search_defs)
  then obtain g where
    g: "build_graph nodes edges (terrainFilter False maxTerrain) (Num 400) = Inr g"
    and a: "g ''A'' = Some []"
    by blast
  from a have "\<not> connected g ''A'' ''F''"
    using connected_isolated [of g "''A''" "''F''"] by auto
  with g a show "\<exists>g. build_graph nodes edges (terrainFilter False maxTerrain) (Num 400) = Inr g \<and>
        g ''A'' = Some [] \<and> \<not> connected g ''A'' ''F''"
    by blast
qed

theorem maxCost_400_unreachable_witness:
  "dijkstra nodes edges ''A'' ''F'' (terrainFilter False (Num 3)) (Num 400) =
     Some (Inr \<lparr>path = [], cost = Number Infinity\<rparr>) \<and>
   filter (admissible (terrainFilter False (Num 3)) (Num 400)) edges =
     [mk_edge ''C'' ''E'' 4 2 55 25]"
  using maxCost_400_unreachable [of "Num 3"] by simp

section \<open>Negative attributes\<close>

text \<open>
  C9 (as stated, refuted). The claim is that an edge with a negative distance or cost
  component is rejected or clamped when the data is loaded, before any search runs.
  An edge from A to B with distance -5 is accepted as it is: its cost is -550, it
  passes the filter, and the search returns it as the path from A to B with the
  total cost -550.
\<close>

theorem negative_edge_counterexample:
  "calculateEdgeCost (mk_edge ''A'' ''B'' (- 5) 1 70 40) = Num (- 550) \<and>
   dijkstra nodes [mk_edge ''A'' ''B'' (- 5) 1 70 40] ''A'' ''B''
       (terrainFilter False (Num 3)) (Num 10000) =
     Some (Inr \<lparr>path = [Some (mk_edge ''A'' ''B'' (- 5) 1 70 40)],
                cost = Number (Num (- 550))\<rparr>)"
  by (simp add: example_defs search_defs)

text \<open>
  C9 (amended). The attributes of an edge are not validated. Graph construction
  accepts every edge list whose edges refer to existing nodes, whatever the signs of
  the attributes; the only failure it can raise is the \<open>TypeError\<close> for an admissible
  edge with an end that is not a node; and every admissible edge of such a list is
  entered in the adjacency lists with the cost \<open>distance * (materialCost + laborCost)\<close>
  as computed. The edges of the built-in table have a positive distance and
  non-negative cost components.
\<close>

theorem edges_not_validated:
  "(well_formed ns es \<longrightarrow>
      (\<exists>g. build_graph ns es tf mc = Inr g \<and>
         (\<forall>e \<in> set es. admissible tf mc e \<longrightarrow>
            (\<exists>nbs. g (start e) = Some nbs \<and>
               \<lparr>nb_node = end_node e,
                nb_cost = js_mul (distance e) (js_add (materialCost e) (laborCost e)),
                nb_edge = e\<rparr> \<in> set nbs)))) \<and>
   (build_graph ns es tf mc = Inl err \<longrightarrow>
      (\<exists>e \<in> set es. admissible tf mc e \<and>
         (start e \<notin> node_ids ns \<or> end_node e \<notin> node_ids ns))) \<and>
   list_all (\<lambda>e. num_lt (Num 0) (distance e) \<and> num_le (Num 0) (materialCost e) \<and>
                 num_le (Num 0) (laborCost e)) edges"
proof (intro conjI impI)
  assume wf: "well_formed ns es"
  from build_graph_well_formed [OF this] obtain g where g: "build_graph ns es tf mc = Inr g"
    by blast
  have "\<exists>nbs. g (start e) = Some nbs \<and>
      \<lparr>nb_node = end_node e,
       nb_cost = js_mul (distance e) (js_add (materialCost e) (laborCost e)),
       nb_edge = e\<rparr> \<in> set nbs"
    if "e \<in> set es" "admissible tf mc e" for e
    using build_graph_entered [OF g that] by (simp add: calculateEdgeCost_def)
  with g show "\<exists>g. build_graph ns es tf mc = Inr g \<and>
         (\<forall>e \<in> set es. admissible tf mc e \<longrightarrow>
            (\<exists>nbs. g (start e) = Some nbs \<and>
               \<lparr>nb_node = end_node e,
                nb_cost = js_mul (distance e) (js_add (materialCost e) (laborCost e)),
                nb_edge = e\<rparr> \<in> set nbs))"
    by blast
next
  assume "build_graph ns es tf mc = Inl err"
  then show "\<exists>e \<in> set es. admissible tf mc e \<and>
         (start e \<notin> node_ids ns \<or> end_node e \<notin> node_ids ns)"
    by (simp add: build_graph_Inl)
next
  show "list_all (\<lambda>e. num_lt (Num 0) (distance e) \<and> num_le (Num 0) (materialCost e) \<and>
                 num_le (Num 0) (laborCost e)) edges"
    by (simp add: example_defs)
qed

theorem edges_not_validated_witness:
  "well_formed nodes [mk_edge ''A'' ''B'' (- 5) 1 70 40] \<and>
   admissible (terrainFilter False (Num 3)) (Num 10000) (mk_edge ''A'' ''B'' (- 5) 1 70 40) \<and>
   (\<exists>g nbs. build_graph nodes [mk_edge ''A'' ''B'' (- 5) 1 70 40]
               (terrainFilter False (Num 3)) (Num 10000) = Inr g \<and>
            g ''A'' = Some nbs \<and>
            \<lparr>nb_node = ''B'', nb_cost = Num (- 550),
             nb_edge = mk_edge ''A'' ''B'' (- 5) 1 70 40\<rparr> \<in> set nbs)"
proof -
  let ?e = "mk_edge ''A'' ''B'' (- 5) 1 70 40"
  have h: "well_formed nodes [?e]"
    by (simp add: well_formed_def node_ids_def example_defs)
  have a: "admissible (terrainFilter False (Num 3)) (Num 10000) ?e"
    by (simp add: admissible_def terrainFilter_def calculateEdgeCost_def mk_edge_def)
  from edges_not_validated [of nodes "[?e]" "terrainFilter False (Num 3)" "Num 10000" TypeError] h
  obtain g where g: "build_graph nodes [?e] (terrainFilter False (Num 3)) (Num 10000) = Inr g"
    and en: "\<forall>e \<in> set [?e]. admissible (terrainFilter False (Num 3)) (Num 10000) e \<longrightarrow>
        (\<exists>nbs. g (start e) = Some nbs \<and>
           \<lparr>nb_node = end_node e,
            nb_cost = js_mul (distance e) (js_add (materialCost e) (laborCost e)),
            nb_edge = e\<rparr> \<in> set nbs)"
    by blast
  from en a obtain nbs where "g (start ?e) = Some nbs"
    "\<lparr>nb_node = end_node ?e,
      nb_cost = js_mul (distance ?e) (js_add (materialCost ?e) (laborCost ?e)),
      nb_edge = ?e\<rparr> \<in> set nbs"
    by auto
  then have "g ''A'' = Some nbs \<and>
      \<lparr>nb_node = ''B'', nb_cost = Num (- 550), nb_edge = ?e\<rparr> \<in> set nbs"
    by (simp add: mk_edge_def)
  with h a g show ?thesis by blast
qed

section \<open>Self-loops\<close>

text \<open>
  C8 (as stated, refuted). The claim is that adjacency construction ignores self-loop
  edges. A self-loop on A that passes the filter is pushed on the adjacency list of A
  twice, once for each of its ends.
\<close>

theorem self_loop_counterexample:
  "build_graph nodes [mk_edge ''A'' ''A'' 2 1 10 10] (terrainFilter False (Num 3)) (Num 10000) =
     Inr ((init_graph nodes)
       (''A'' \<mapsto> [\<lparr>nb_node = ''A'', nb_cost = Num 40,
                   nb_edge = mk_edge ''A'' ''A'' 2 1 10 10\<rparr>,
                  \<lparr>nb_node = ''A'', nb_cost = Num 40,
                   nb_edge = mk_edge ''A'' ''A'' 2 1 10 10\<rparr>]))"
  by (simp add: build_graph_def add_edge_def admissible_def terrainFilter_def
        calculateEdgeCost_def push_neighbor_def init_graph_apply node_ids_def example_defs)

text \<open>
  C8 (amended). For every graph whose edges refer to existing nodes, adjacency
  construction does enter a self-loop that passes the filter, in the list of its
  node. The search skips it: relaxing the neighbours of a node gives the same with
  and without the entries that lead back to the node, which is no longer unvisited.
  So the outcome of the query is the one it has for the edge list without its
  self-loops; no edge of a returned path is a self-loop; the main loop, where edges
  are relaxed, runs to its end; and the query returns a result whenever the source
  names no property inherited from \<open>Object.prototype\<close>.
\<close>

theorem self_loops_skipped:
  assumes "well_formed ns es"
  shows "(\<exists>g. build_graph ns es tf mc = Inr g \<and>
       (\<forall>e \<in> set es. admissible tf mc e \<and> start e = end_node e \<longrightarrow>
          (\<exists>nbs. g (start e) = Some nbs \<and>
             \<lparr>nb_node = start e, nb_cost = calculateEdgeCost e, nb_edge = e\<rparr> \<in> set nbs))) \<and>
    (\<forall>s current nbs.
       visit s current (filter (\<lambda>nb. nb_node nb \<noteq> current) nbs) = visit s current nbs) \<and>
    dijkstra ns (filter (\<lambda>e. start e \<noteq> end_node e) es) source destination tf mc =
      dijkstra ns es source destination tf mc \<and>
    (\<forall>rt e. dijkstra ns es source destination tf mc = Some (Inr rt) \<longrightarrow>
       Some e \<in> set (path rt) \<longrightarrow> start e \<noteq> end_node e) \<and>
    (\<exists>g s. build_graph ns es tf mc = Inr g \<and>
       main_loop g destination (init_state ns source) = Inr s) \<and>
    (\<not> is_inherited source \<longrightarrow>
       (\<exists>rt. dijkstra ns es source destination tf mc = Some (Inr rt)))"
proof (intro conjI allI impI)
  from build_graph_well_formed [OF assms] obtain g where g: "build_graph ns es tf mc = Inr g"
    by blast
  have "\<exists>nbs. g (start e) = Some nbs \<and>
      \<lparr>nb_node = start e, nb_cost = calculateEdgeCost e, nb_edge = e\<rparr> \<in> set nbs"
    if "e \<in> set es" "admissible tf mc e \<and> start e = end_node e" for e
    using build_graph_entered [OF g that(1)] that(2) by auto
  with g show "\<exists>g. build_graph ns es tf mc = Inr g \<and>
       (\<forall>e \<in> set es. admissible tf mc e \<and> start e = end_node e \<longrightarrow>
          (\<exists>nbs. g (start e) = Some nbs \<and>
             \<lparr>nb_node = start e, nb_cost = calculateEdgeCost e, nb_edge = e\<rparr> \<in> set nbs))"
    by blast
  from g show "dijkstra ns (filter (\<lambda>e. start e \<noteq> end_node e) es) source destination tf mc =
      dijkstra ns es source destination tf mc"
    by (rule dijkstra_drop_loops)
  from dijkstra_build_ok [OF g, of destination source] g
  show "\<exists>g s. build_graph ns es tf mc = Inr g \<and>
       main_loop g destination (init_state ns source) = Inr s"
    by blast
  show "\<exists>rt. dijkstra ns es source destination tf mc = Some (Inr rt)"
    if "\<not> is_inherited source"
    using dijkstra_returns [OF g that, of destination] by blast
next
  fix s current nbs
  show "visit s current (filter (\<lambda>nb. nb_node nb \<noteq> current) nbs) = visit s current nbs"
    by (rule visit_skip_current)
next
  fix rt e
  assume "dijkstra ns es source destination tf mc = Some (Inr rt)" "Some e \<in> set (path rt)"
  from path_edge_entry [OF this] show "start e \<noteq> end_node e"
    by (auto simp: entry_ok_def)
qed

theorem self_loops_skipped_witness:
  "well_formed nodes (mk_edge ''C'' ''C'' 1 1 1 1 # edges) \<and> \<not> is_inherited ''A'' \<and>
   dijkstra nodes (mk_edge ''C'' ''C'' 1 1 1 1 # edges) ''A'' ''F''
       (terrainFilter False (Num 3)) (Num 10000) =
     Some (Inr \<lparr>path = [Some (mk_edge ''A'' ''C'' 7 2 65 35),
                        Some (mk_edge ''C'' ''E'' 4 2 55 25),
                        Some (mk_edge ''E'' ''F'' 5 2 75 40)],
                cost = Number (Num 1595)\<rparr>) \<and>
   dijkstra nodes (filter (\<lambda>e. start e \<noteq> end_node e) (mk_edge ''C'' ''C'' 1 1 1 1 # edges))
       ''A'' ''F'' (terrainFilter False (Num 3)) (Num 10000) =
     dijkstra nodes (mk_edge ''C'' ''C'' 1 1 1 1 # edges) ''A'' ''F''
       (terrainFilter False (Num 3)) (Num 10000)"
proof -
  have h: "well_formed nodes (mk_edge ''C'' ''C'' 1 1 1 1 # edges)"
    by (simp add: well_formed_def node_ids_def example_defs)
  have a: "\<not> is_inherited ''A''" by (simp add: is_inherited_def)
  have "dijkstra nodes (mk_edge ''C'' ''C'' 1 1 1 1 # edges) ''A'' ''F''
       (terrainFilter False (Num 3)) (Num 10000) =
     Some (Inr \<lparr>path = [Some (mk_edge ''A'' ''C'' 7 2 65 35),
                        Some (mk_edge ''C'' ''E'' 4 2 55 25),
                        Some (mk_edge ''E'' ''F'' 5 2 75 40)],
                cost = Number (Num 1595)\<rparr>)"
    by (simp add: example_defs search_defs)
  with h a self_loops_skipped
      [OF h, where source = "''A''" and destination = "''F''"
         and tf = "terrainFilter False (Num 3)" and mc = "Num 10000"]
  show ?thesis by simp
qed

section \<open>Termination\<close>

text \<open>
  C10 (as stated, refuted). The claim is that the search terminates for every input.
  Take two nodes named \<open>constructor\<close> and \<open>undefined\<close>, joined by one edge, and the query
  from \<open>constructor\<close> to \<open>undefined\<close>. The main loop links \<open>undefined\<close> to \<open>constructor\<close>.
  The walk then goes from \<open>undefined\<close> to \<open>constructor\<close>, reads the inherited property
  \<open>constructor\<close> as a link whose \<open>from\<close> is \<open>undefined\<close>, and is back at the key
  \<open>undefined\<close>: it never ends.
\<close>

theorem search_terminates_counterexample:
  "well_formed [mk_node ''constructor'' 0 0, mk_node ''undefined'' 0 0]
     [mk_edge ''constructor'' ''undefined'' 1 1 1 1] \<and>
   dijkstra [mk_node ''constructor'' 0 0, mk_node ''undefined'' 0 0]
     [mk_edge ''constructor'' ''undefined'' 1 1 1 1] ''constructor'' ''undefined''
     (terrainFilter False (Num 3)) (Num 10000) = None"
proof -
  let ?e = "mk_edge ''constructor'' ''undefined'' 1 1 1 1"
  note cyc = reconstruct_cycle
    [where ?p0.0 = "\<lparr>prev_from = ''constructor'', prev_edge = ?e\<rparr>" and k = "''constructor''",
     unfolded mk_edge_def]
  have "dijkstra [mk_node ''constructor'' 0 0, mk_node ''undefined'' 0 0] [?e]
      ''constructor'' ''undefined'' (terrainFilter False (Num 3)) (Num 10000) = None"
    by (simp add: mk_node_def dijkstra_def build_graph_def init_graph_def add_edge_def
        push_neighbor_def admissible_def calculateEdgeCost_def init_state_def init_costs_def
        new_Set_def set_add_def main_loop.simps visit_def select_min_def select_step_def
        js_lt_def relax_def relax_step_def terrainFilter_def get_cost_def set_cost_def
        Let_def mk_edge_def is_inherited_def cyc)
  then show ?thesis
    by (simp add: well_formed_def node_ids_def mk_node_def mk_edge_def)
qed

text \<open>
  C10 (amended). For every input whose source names no property inherited from
  \<open>Object.prototype\<close>, the search returns: a result, or the \<open>TypeError\<close> of graph
  construction. For every input, each pass of the node-selection loop that does not
  break removes the selected node from the unvisited set, which gets strictly
  smaller; when graph construction succeeds, the main loop runs to its end and the
  predecessor links it has stored go strictly down a rank, so they form no cycle.
  The walk of the reconstruction loop from the destination ends when the source
  names no inherited property.
\<close>

theorem search_terminates:
  "(\<not> is_inherited source \<longrightarrow>
      (\<exists>res. dijkstra ns es source destination tf mc = Some res)) \<and>
   (fst (select_min (costs s) (unvisited s)) = Some current \<longrightarrow>
      length (unvisited (visit s current nbs)) < length (unvisited s)) \<and>
   (build_graph ns es tf mc = Inr g \<longrightarrow>
      (\<exists>s' r. main_loop g destination (init_state ns source) = Inr s' \<and>
         ranked (previous s') r \<and>
         (\<not> is_inherited source \<longrightarrow>
            (\<exists>pth. reconstruct (previous s') (Some destination) [] = Some pth))))"
proof (intro conjI impI)
  assume src: "\<not> is_inherited source"
  show "\<exists>res. dijkstra ns es source destination tf mc = Some res"
  proof (cases "build_graph ns es tf mc")
    case (Inl err)
    then show ?thesis by (simp add: dijkstra_def)
  next
    case (Inr g)
    from dijkstra_returns [OF this src, of destination] show ?thesis by blast
  qed
next
  assume "fst (select_min (costs s) (unvisited s)) = Some current"
  then have "current \<in> set (unvisited s)" by (simp add: select_min_Some)
  then show "length (unvisited (visit s current nbs)) < length (unvisited s)"
    by (simp add: visit_unvisited length_removeAll_less)
next
  assume g: "build_graph ns es tf mc = Inr g"
  from dijkstra_build_ok [OF g, of destination source] obtain s' where
    s': "main_loop g destination (init_state ns source) = Inr s'"
    and inv: "search_inv g (init_costs ns source) s'"
    by blast
  from inv obtain r where rk: "ranked (previous s') r"
    by (auto simp: search_inv_def inv_rank_def)
  from inv have rt: "rooted (previous s') source" by (rule search_inv_rooted)
  have "\<exists>pth. reconstruct (previous s') (Some destination) [] = Some pth"
    if "\<not> is_inherited source"
    using reconstruct_terminates [OF rk rt that] by blast
  with s' rk show "\<exists>s' r. main_loop g destination (init_state ns source) = Inr s' \<and>
         ranked (previous s') r \<and>
         (\<not> is_inherited source \<longrightarrow>
            (\<exists>pth. reconstruct (previous s') (Some destination) [] = Some pth))"
    by blast
qed

theorem search_terminates_witness:
  "\<not> is_inherited ''A'' \<and>
   (\<exists>res. dijkstra nodes edges ''A'' ''F'' (terrainFilter False (Num 3)) (Num 10000) =
      Some res) \<and>
   fst (select_min (costs (init_state nodes ''A'')) (unvisited (init_state nodes ''A''))) =
     Some ''A'' \<and>
   length (unvisited (visit (init_state nodes ''A'') ''A'' [])) <
     length (unvisited (init_state nodes ''A'')) \<and>
   (\<exists>g s' r pth.
      build_graph nodes edges (terrainFilter False (Num 3)) (Num 10000) = Inr g \<and>
      main_loop g ''F'' (init_state nodes ''A'') = Inr s' \<and> ranked (previous s') r \<and>
      reconstruct (previous s') (Some ''F'') [] = Some pth)"
proof -
  have a: "\<not> is_inherited ''A''" by (simp add: is_inherited_def)
  have sel: "fst (select_min (costs (init_state nodes ''A''))
      (unvisited (init_state nodes ''A''))) = Some ''A''"
    by (simp add: example_defs search_defs)
  from build_graph_well_formed [OF well_formed_example] obtain g where
    g: "build_graph nodes edges (terrainFilter False (Num 3)) (Num 10000) = Inr g"
    by blast
  from search_terminates [of "''A''" nodes edges "''F''" "terrainFilter False (Num 3)"
      "Num 10000" "init_state nodes ''A''" "''A''" "[]" g] a sel g
  show ?thesis by blast
qed

end
